theory Spec2Isabelle
  imports Main "HOL-Library.Word" "HOL-Library.AList"
begin

unbundle bit_operations_syntax

section \<open>Data model\<close>

text \<open>
  The program is \<^verbatim>\<open>src/decrypter.py\<close>. A Python \<^verbatim>\<open>bytes\<close> or \<^verbatim>\<open>bytearray\<close>
  value is a list of 8-bit words; the integers Python computes with are unbounded, so
  index and cursor arithmetic is done on \<^typ>\<open>int\<close>. Exceptions are values.
\<close>

type_synonym byte = "8 word"
type_synonym bytes = "byte list"

datatype py_error = IndexError | ValueError | OSError | MarkupError

section \<open>Cipher engine: \<^verbatim>\<open>decrypt_content\<close>\<close>

text \<open>
  Python subscription \<^verbatim>\<open>key[i]\<close> on a bytes object: a negative index counts from the
  end, and an index outside the object raises \<^verbatim>\<open>IndexError\<close>.
\<close>

definition getitem :: "bytes \<Rightarrow> int \<Rightarrow> py_error + byte" where
  "getitem b i =
     (if 0 \<le> i \<and> i < int (length b) then Inr (b ! nat i)
      else if i < 0 \<and> - int (length b) \<le> i then Inr (b ! nat (int (length b) + i))
      else Inl IndexError)"

text \<open>
  Storing an integer into a bytearray slot (\<^verbatim>\<open>data[i] = v\<close>) raises \<^verbatim>\<open>ValueError\<close>
  unless \<^verbatim>\<open>0 <= v < 256\<close>.
\<close>

definition to_byte :: "int \<Rightarrow> py_error + byte" where
  "to_byte v = (if 0 \<le> v \<and> v < 256 then Inr (word_of_int v) else Inl ValueError)"

text \<open>
  The loop of lines 26 to 29, \<^verbatim>\<open>for data_idx in range(len(data))\<close>, with its two
  mutable variables \<^verbatim>\<open>key_idx\<close> and \<^verbatim>\<open>data\<close> passed along:
  \<^verbatim>\<open>
      if (data_idx & 1) != 0:
          key_idx = (key[key_idx] + data_idx + key_idx) & (key_len - 1)
          data[data_idx] = key[key_idx] ^ (~data[data_idx] & 0xFF)
  \<close>
\<close>

function decrypt_loop :: "bytes \<Rightarrow> nat \<Rightarrow> int \<Rightarrow> bytes \<Rightarrow> py_error + bytes" where
  "decrypt_loop key data_idx key_idx data =
     (if data_idx < length data then
        (if (int data_idx AND 1) \<noteq> 0 then
           (case getitem key key_idx of
              Inl e \<Rightarrow> Inl e
            | Inr k0 \<Rightarrow>
                (let key_idx' = (uint k0 + int data_idx + key_idx) AND (int (length key) - 1)
                 in case getitem key key_idx' of
                      Inl e \<Rightarrow> Inl e
                    | Inr k1 \<Rightarrow>
                        (case to_byte (uint k1 XOR (NOT (uint (data ! data_idx)) AND 0xFF)) of
                           Inl e \<Rightarrow> Inl e
                         | Inr v \<Rightarrow> decrypt_loop key (Suc data_idx) key_idx' (data[data_idx := v]))))
         else decrypt_loop key (Suc data_idx) key_idx data)
      else Inr data)"
  by pat_completeness auto
termination
  by (relation "measure (\<lambda>(key, data_idx, key_idx, data). length data - data_idx)") auto

declare decrypt_loop.simps [simp del]

text \<open>
  \<^verbatim>\<open>decrypt_content\<close>: \<open>Inr None\<close> is Python's \<^verbatim>\<open>None\<close> (the header did not match),
  \<open>Inr (Some data)\<close> the returned bytearray, \<open>Inl e\<close> a raised exception.
\<close>

definition decrypt_content :: "bytes \<Rightarrow> bytes \<Rightarrow> bytes \<Rightarrow> py_error + bytes option" where
  "decrypt_content encrypted_content key header =
     (if take (length header) encrypted_content \<noteq> header then Inr None
      else
        (let data = drop (length header) encrypted_content
         in if data \<noteq> [] then
              (case decrypt_loop key 0 0 data of
                 Inl e \<Rightarrow> Inl e
               | Inr data' \<Rightarrow> Inr (Some data'))
            else Inr (Some data)))"

subsection \<open>The recurrence as the specification words it\<close>

text \<open>
  The keystream cursor of the specification: \<open>spec_keyIdx_after key n\<close> is the value of
  \<open>keyIdx\<close> once the positions below \<open>n\<close> have been visited. It starts at 0, an even
  position leaves it alone, and an odd position \<open>i\<close> replaces it by
  \<open>(key[keyIdx] + i + keyIdx) AND (keyLen - 1)\<close>. So the cursor that selects the key
  byte for an odd position \<open>i\<close> is \<open>spec_keyIdx_after key (Suc i)\<close>.
\<close>

fun spec_keyIdx_after :: "bytes \<Rightarrow> nat \<Rightarrow> int" where
  "spec_keyIdx_after key 0 = 0"
| "spec_keyIdx_after key (Suc i) =
     (if odd i
      then (uint (key ! nat (spec_keyIdx_after key i)) + int i + spec_keyIdx_after key i) AND (int (length key) - 1)
      else spec_keyIdx_after key i)"

text \<open>
  The same recurrence with a true remainder in place of the mask, the generalisation
  the specification's design notes mention for keys whose length is no power of two.
\<close>

fun spec_keyIdx_mod :: "bytes \<Rightarrow> nat \<Rightarrow> int" where
  "spec_keyIdx_mod key 0 = 0"
| "spec_keyIdx_mod key (Suc i) =
     (if odd i
      then (uint (key ! nat (spec_keyIdx_mod key i)) + int i + spec_keyIdx_mod key i) mod int (length key)
      else spec_keyIdx_mod key i)"

text \<open>
  The body transform in closed form, from position \<open>start\<close> on: what the loop leaves
  in the buffer when it is entered at \<open>start\<close> with the cursor \<open>spec_keyIdx_after key start\<close>.
\<close>

definition spec_transform :: "bytes \<Rightarrow> nat \<Rightarrow> bytes \<Rightarrow> bytes" where
  "spec_transform key start data =
     map (\<lambda>j. if start \<le> j \<and> odd j
              then key ! nat (spec_keyIdx_after key (Suc j)) XOR NOT (data ! j)
              else data ! j)
       [0..<length data]"

text \<open>
  The encoder of the specification's round-trip law (the repository has no encoder):
  for odd \<open>i\<close> it advances the same recurrence and stores
  \<open>bitwiseComplement(key[keyIdx] XOR plain[i]) AND 0xFF\<close>; even bytes are unchanged.
\<close>

fun spec_encode_from :: "bytes \<Rightarrow> nat \<Rightarrow> int \<Rightarrow> bytes \<Rightarrow> bytes" where
  "spec_encode_from key i keyIdx [] = []"
| "spec_encode_from key i keyIdx (p # plain) =
     (if odd i
      then (let keyIdx' = (uint (key ! nat keyIdx) + int i + keyIdx) AND (int (length key) - 1)
            in (NOT (key ! nat keyIdx' XOR p) AND 0xFF) # spec_encode_from key (Suc i) keyIdx' plain)
      else p # spec_encode_from key (Suc i) keyIdx plain)"

definition spec_encode :: "bytes \<Rightarrow> bytes \<Rightarrow> bytes" where
  "spec_encode plain key = spec_encode_from key 0 0 plain"

section \<open>The file system and the console\<close>

text \<open>
  \<^verbatim>\<open>decrypt_file\<close> and \<^verbatim>\<open>process_directory\<close> work on files through \<^verbatim>\<open>pathlib\<close> and
  \<^verbatim>\<open>os.walk\<close>. A path is the list of its components; the file system is a tree whose
  directories list their entries in the order a directory scan returns them; a name is
  looked up at its first entry, and \<open>AList.update\<close> replaces that entry in place. The
  model is POSIX, without symbolic links and without permissions.
\<close>

type_synonym path = "string list"

datatype node = File bytes | Dir "(string \<times> node) list"

fun lookup :: "node \<Rightarrow> path \<Rightarrow> node option" where
  "lookup n [] = Some n"
| "lookup (File b) (c # cs) = None"
| "lookup (Dir es) (c # cs) = (case map_of es c of None \<Rightarrow> None | Some child \<Rightarrow> lookup child cs)"

text \<open>\<^verbatim>\<open>Path.exists()\<close>: true of a file and of a directory.\<close>

definition path_exists :: "node \<Rightarrow> path \<Rightarrow> bool" where
  "path_exists fs p = (lookup fs p \<noteq> None)"

text \<open>\<^verbatim>\<open>Path.read_bytes()\<close>: an \<^verbatim>\<open>OSError\<close> for a missing path and for a directory.\<close>

definition read_bytes :: "node \<Rightarrow> path \<Rightarrow> py_error + bytes" where
  "read_bytes fs p = (case lookup fs p of Some (File b) \<Rightarrow> Inr b | _ \<Rightarrow> Inl OSError)"

text \<open>\<^verbatim>\<open>Path.parent\<close>; the parent of the root is the root.\<close>

definition parent :: "path \<Rightarrow> path" where
  "parent p = butlast p"

text \<open>
  \<^verbatim>\<open>Path.mkdir(parents=True, exist_ok=True)\<close>: every missing directory on the way is
  created; an existing directory is accepted; a file on the way, or at the end, is an
  \<^verbatim>\<open>OSError\<close> and nothing is created.
\<close>

fun mkdir_parents :: "node \<Rightarrow> path \<Rightarrow> py_error + node" where
  "mkdir_parents (Dir es) [] = Inr (Dir es)"
| "mkdir_parents (File b) cs = Inl OSError"
| "mkdir_parents (Dir es) (c # cs) =
     (case map_of es c of
        None \<Rightarrow>
          (case mkdir_parents (Dir []) cs of
             Inl e \<Rightarrow> Inl e
           | Inr child \<Rightarrow> Inr (Dir (es @ [(c, child)])))
      | Some child \<Rightarrow>
          (case mkdir_parents child cs of
             Inl e \<Rightarrow> Inl e
           | Inr child' \<Rightarrow> Inr (Dir (AList.update c child' es))))"

text \<open>
  \<^verbatim>\<open>Path.write_bytes(data)\<close>: the file is created in an existing directory or its
  content replaced; a directory at the path, or no directory above it, is an \<^verbatim>\<open>OSError\<close>.
\<close>

fun write_bytes :: "node \<Rightarrow> path \<Rightarrow> bytes \<Rightarrow> py_error + node" where
  "write_bytes (File old) [] b = Inr (File b)"
| "write_bytes (Dir es) [] b = Inl OSError"
| "write_bytes (File old) (c # cs) b = Inl OSError"
| "write_bytes (Dir es) (c # cs) b =
     (case map_of es c of
        None \<Rightarrow> (if cs = [] then Inr (Dir (es @ [(c, File b)])) else Inl OSError)
      | Some child \<Rightarrow>
          (case write_bytes child cs b of
             Inl e \<Rightarrow> Inl e
           | Inr child' \<Rightarrow> Inr (Dir (AList.update c child' es))))"

text \<open>
  \<^verbatim>\<open>os.walk(top)\<close>, top-down: one triple (directory, names of its subdirectories,
  names of its other entries) for the directory itself, then the walks of its subdirectories in
  listing order. Walking something that is no directory yields nothing.
\<close>

fun os_walk :: "path \<Rightarrow> node \<Rightarrow> (path \<times> string list \<times> string list) list" where
  "os_walk dir (File b) = []"
| "os_walk dir (Dir es) =
     (dir,
      map fst (filter (\<lambda>(n, x). case x of Dir _ \<Rightarrow> True | File _ \<Rightarrow> False) es),
      map fst (filter (\<lambda>(n, x). case x of Dir _ \<Rightarrow> False | File _ \<Rightarrow> True) es))
     # concat (map (\<lambda>(n, x). os_walk (dir @ [n]) x) es)"

definition walk :: "node \<Rightarrow> path \<Rightarrow> (path \<times> string list \<times> string list) list" where
  "walk fs dir = (case lookup fs dir of None \<Rightarrow> [] | Some n \<Rightarrow> os_walk dir n)"

subsection \<open>Path arithmetic\<close>

text \<open>\<^verbatim>\<open>Path.name\<close>: the last component, empty for a path without components.\<close>

definition path_name :: "path \<Rightarrow> string" where
  "path_name p = (if p = [] then [] else last p)"

text \<open>\<^verbatim>\<open>str.rfind(c)\<close>: the highest index of \<open>c\<close>, or \<open>-1\<close>.\<close>

fun rfind :: "char \<Rightarrow> string \<Rightarrow> int" where
  "rfind c [] = - 1"
| "rfind c (x # xs) =
     (let r = rfind c xs in if 0 \<le> r then r + 1 else if x = c then 0 else - 1)"

text \<open>
  \<^verbatim>\<open>Path.suffix\<close>: the name from its last dot on, unless that dot is the first or the
  last character of the name or there is none.
\<close>

definition path_suffix :: "path \<Rightarrow> string" where
  "path_suffix p =
     (let name = path_name p; i = rfind (CHR ''.'') name
      in if 0 < i \<and> i < int (length name) - 1 then drop (nat i) name else [])"

text \<open>
  \<^verbatim>\<open>Path.with_suffix(suffix)\<close>: \<^verbatim>\<open>ValueError\<close> for a suffix that holds a separator, that
  does not start with a dot or that is a lone dot, and for a path with an empty name;
  otherwise the old suffix of the name is replaced by the new one.
\<close>

definition with_suffix :: "path \<Rightarrow> string \<Rightarrow> py_error + path" where
  "with_suffix p suffix =
     (if CHR ''/'' \<in> set suffix then Inl ValueError
      else if (suffix \<noteq> [] \<and> take 1 suffix \<noteq> ''.'') \<or> suffix = ''.'' then Inl ValueError
      else
        (let name = path_name p
         in if name = [] then Inl ValueError
            else
              (let old_suffix = path_suffix p;
                   name' = (if old_suffix = [] then name @ suffix
                            else take (length name - length old_suffix) name @ suffix)
               in Inr (butlast p @ [name']))))"

text \<open>\<^verbatim>\<open>Path.relative_to(other)\<close>: \<^verbatim>\<open>ValueError\<close> unless \<open>other\<close> is a prefix of the path.\<close>

definition relative_to :: "path \<Rightarrow> path \<Rightarrow> py_error + path" where
  "relative_to p other =
     (if take (length other) p = other then Inr (drop (length other) p) else Inl ValueError)"

text \<open>\<^verbatim>\<open>str.endswith(suffix)\<close>.\<close>

definition endswith :: "string \<Rightarrow> string \<Rightarrow> bool" where
  "endswith s suffix = (length suffix \<le> length s \<and> drop (length s - length suffix) s = suffix)"

subsection \<open>The world: the file system and the calls made\<close>

text \<open>
  Every file operation and every call to the console or the progress bar is recorded,
  in order, with the text it was given, so that a claim can say what a call did not do.
\<close>

datatype event =
    PathExists path
  | ReadBytes path
  | Mkdir path
  | WriteBytes path bytes
  | Print string
  | ProgressStart
  | ProgressAddTask string nat
  | ProgressDescription string
  | ProgressCompleted nat
  | ProgressStop

record world =
  root :: node
  trace :: "event list"

definition emit :: "event \<Rightarrow> world \<Rightarrow> world" where
  "emit e w = w\<lparr>trace := trace w @ [e]\<rparr>"

text \<open>The events of a call: what the trace gained from \<open>w\<close> to \<open>w'\<close>.\<close>

definition events_since :: "world \<Rightarrow> world \<Rightarrow> event list" where
  "events_since w w' = drop (length (trace w)) (trace w')"

fun changes_files :: "event \<Rightarrow> bool" where
  "changes_files (Mkdir p) = True"
| "changes_files (WriteBytes p b) = True"
| "changes_files e = False"

subsection \<open>The console and the progress bar\<close>

text \<open>
  The program reports through \<^verbatim>\<open>rich\<close>: the global \<^verbatim>\<open>console = Console()\<close> and a
  \<^verbatim>\<open>Progress()\<close>. They are not part of the program, and a call into them can raise
  (\<^verbatim>\<open>console.print\<close> parses its string as markup, writes to a stream, and so on). What
  the program does not decide is a parameter of the model: \<open>reporting env h e\<close> is
  \<open>None\<close> when the call \<open>e\<close>, made after the calls \<open>h\<close>, returns, and \<open>Some x\<close> when
  it raises \<open>x\<close>; \<open>exc_str env h x\<close> is the text \<^verbatim>\<open>str(e)\<close> of the exception \<open>x\<close>
  caught after the calls \<open>h\<close>.
\<close>

record environment =
  reporting :: "event list \<Rightarrow> event \<Rightarrow> py_error option"
  exc_str :: "event list \<Rightarrow> py_error \<Rightarrow> string"

text \<open>What a call made in the world \<open>w\<close> raises, if anything.\<close>

definition raised :: "environment \<Rightarrow> world \<Rightarrow> event \<Rightarrow> py_error option" where
  "raised env w e = reporting env (trace w) e"

text \<open>
  \<^verbatim>\<open>str(path)\<close>, as the f-strings interpolate a path: the components joined by the
  separator, and a dot for the path without components.
\<close>

fun path_str :: "path \<Rightarrow> string" where
  "path_str [] = ''.''"
| "path_str [c] = c"
| "path_str (c # cs) = c @ ''/'' @ path_str cs"

text \<open>The strings of lines 44 to 45, 57, 89, 93 and 97, character for character.\<close>

definition skip_message :: "path \<Rightarrow> path \<Rightarrow> string" where
  "skip_message input_file output_file =
     ''[bold yellow][!][/] Skipping '' @ path_str input_file @
     '': Output file '' @ path_str output_file @ '' already exists''"

definition error_message :: "path \<Rightarrow> string \<Rightarrow> string" where
  "error_message input_file text =
     ''[bold red][-][/] Error decrypting '' @ path_str input_file @ '': '' @ text"

definition no_files_message :: "string \<Rightarrow> string" where
  "no_files_message extension =
     ''[bold yellow][!][/] No files with extension '' @ extension @ '' found''"

definition task_description :: string where
  "task_description = ''[bold cyan][*][/] Decrypting...''"

definition file_description :: "path \<Rightarrow> string" where
  "file_description input_file = ''[bold blue][*][/] Decrypting '' @ path_name input_file"

subsection \<open>Markup that \<^verbatim>\<open>rich\<close> refuses\<close>

text \<open>
  \<^verbatim>\<open>console.print\<close> renders its string with \<^verbatim>\<open>rich.markup.render\<close>. There a tag is an
  opening bracket, one of the characters \<^verbatim>\<open>a-z # / @\<close>, then as few characters other
  than an opening bracket as lead to a closing bracket, and that bracket (the pattern
  \<^verbatim>\<open>(\\*)\[([a-z#/@][^[]*?)]\<close>). An odd number of backslashes just before it makes
  the tag plain text. A tag whose text starts with a slash closes a tag; any other opens
  one. A closing tag met while no tag is open raises \<^verbatim>\<open>MarkupError\<close>.

  \<open>closes_unopened\<close> scans a string in that way and says whether it meets such a closing
  tag. It counts the open tags and takes every other closing tag to close one, so it
  finds one cause of the error, not all of them: where it holds, \<^verbatim>\<open>rich\<close> raises.
\<close>

definition tag_first :: "char \<Rightarrow> bool" where
  "tag_first c = (c \<in> set ''abcdefghijklmnopqrstuvwxyz#/@'')"

text \<open>After the first character of a tag: a closing bracket comes before any opening one.\<close>

fun tag_ends :: "string \<Rightarrow> bool" where
  "tag_ends [] = False"
| "tag_ends (c # cs) =
     (if c = CHR '']'' then True else if c = CHR ''['' then False else tag_ends cs)"

datatype tag = Opening | Closing

text \<open>The tag that starts at an opening bracket, given the text after the bracket.\<close>

fun tag_at :: "string \<Rightarrow> tag option" where
  "tag_at [] = None"
| "tag_at (c # cs) =
     (if tag_first c \<and> tag_ends cs then Some (if c = CHR ''/'' then Closing else Opening)
      else None)"

text \<open>
  The scan, with its state: whether it is inside a tag, the number of open tags, and
  the number of backslashes just before the current character.
\<close>

fun closes_unopened_from :: "bool \<Rightarrow> nat \<Rightarrow> nat \<Rightarrow> string \<Rightarrow> bool" where
  "closes_unopened_from in_tag opened backslashes [] = False"
| "closes_unopened_from True opened backslashes (c # cs) =
     closes_unopened_from (c \<noteq> CHR '']'') opened 0 cs"
| "closes_unopened_from False opened backslashes (c # cs) =
     (if c = CHR 0x5C then closes_unopened_from False opened (Suc backslashes) cs
      else if c = CHR ''['' then
        (case tag_at cs of
           None \<Rightarrow> closes_unopened_from False opened 0 cs
         | Some t \<Rightarrow>
             (if odd backslashes then closes_unopened_from True opened 0 cs
              else
                (case t of
                   Opening \<Rightarrow> closes_unopened_from True (Suc opened) 0 cs
                 | Closing \<Rightarrow>
                     (if opened = 0 then True
                      else closes_unopened_from True (opened - 1) 0 cs))))
      else closes_unopened_from False opened 0 cs)"

definition closes_unopened :: "string \<Rightarrow> bool" where
  "closes_unopened markup = closes_unopened_from False 0 0 markup"

text \<open>
  An environment whose console is \<^verbatim>\<open>rich\<close>'s at least in this: printing a string in
  which a closing tag has nothing to close raises \<^verbatim>\<open>MarkupError\<close>.
\<close>

definition rich_console :: "environment \<Rightarrow> bool" where
  "rich_console env = (\<forall>h markup. closes_unopened markup \<longrightarrow> reporting env h (Print markup) = Some MarkupError)"

text \<open>
  The least such environment, for evaluating the program on concrete inputs: printing
  raises exactly where \<open>closes_unopened\<close> holds, and no other call raises.
\<close>

definition plain_console :: environment where
  "plain_console =
     \<lparr>reporting = (\<lambda>h e. case e of
                       Print markup \<Rightarrow> (if closes_unopened markup then Some MarkupError else None)
                     | _ \<Rightarrow> None),
      exc_str = (\<lambda>h x. ''error'')\<rparr>"

section \<open>File decoder: \<^verbatim>\<open>decrypt_file\<close>\<close>

text \<open>
  Lines 42 to 54, the \<^verbatim>\<open>try\<close> block. \<^verbatim>\<open>not overwrite and output_file.exists()\<close> asks
  the file system only when \<^verbatim>\<open>overwrite\<close> is false. The walrus test is false for
  \<^verbatim>\<open>None\<close> and for an empty bytearray, and control then leaves the block for the
  \<^verbatim>\<open>return False\<close> of line 59 (\<open>Inr False\<close>). \<open>Inl e\<close> is an exception raised in the
  block, by the console as well as by a file operation or the decoder; what had been
  done to the file system before stays done.
\<close>

definition decrypt_file_guarded ::
  "environment \<Rightarrow> world \<Rightarrow> path \<Rightarrow> path \<Rightarrow> bytes \<Rightarrow> bytes \<Rightarrow> bool \<Rightarrow> world \<times> (py_error + bool)"
where
  "decrypt_file_guarded env w input_file output_file key header overwrite =
     (let w1 = (if \<not> overwrite then emit (PathExists output_file) w else w)
      in if \<not> overwrite \<and> path_exists (root w) output_file
         then
           (case raised env w1 (Print (skip_message input_file output_file)) of
              Some e \<Rightarrow> (emit (Print (skip_message input_file output_file)) w1, Inl e)
            | None \<Rightarrow> (emit (Print (skip_message input_file output_file)) w1, Inr False))
         else
           (let w2 = emit (ReadBytes input_file) w1
            in case read_bytes (root w2) input_file of
                 Inl e \<Rightarrow> (w2, Inl e)
               | Inr encrypted_content \<Rightarrow>
                   (case decrypt_content encrypted_content key header of
                      Inl e \<Rightarrow> (w2, Inl e)
                    | Inr None \<Rightarrow> (w2, Inr False)
                    | Inr (Some decrypted_content) \<Rightarrow>
                        (if decrypted_content = [] then (w2, Inr False)
                         else
                           (let w3 = emit (Mkdir (parent output_file)) w2
                            in case mkdir_parents (root w3) (parent output_file) of
                                 Inl e \<Rightarrow> (w3, Inl e)
                               | Inr fs1 \<Rightarrow>
                                   (let w4 = emit (WriteBytes output_file decrypted_content)
                                               (w3\<lparr>root := fs1\<rparr>)
                                    in case write_bytes fs1 output_file decrypted_content of
                                         Inl e \<Rightarrow> (w4, Inl e)
                                       | Inr fs2 \<Rightarrow> (w4\<lparr>root := fs2\<rparr>, Inr True)))))))"

text \<open>
  Lines 56 to 59, the handler \<^verbatim>\<open>except Exception as e\<close>: it prints the error message
  and the function returns \<^verbatim>\<open>False\<close>. Nothing guards this print: an exception it
  raises leaves \<^verbatim>\<open>decrypt_file\<close>.
\<close>

definition decrypt_file_except ::
  "environment \<Rightarrow> path \<Rightarrow> world \<Rightarrow> py_error \<Rightarrow> world \<times> (py_error + bool)"
where
  "decrypt_file_except env input_file w e =
     (let message = error_message input_file (exc_str env (trace w) e)
      in case raised env w (Print message) of
           Some e' \<Rightarrow> (emit (Print message) w, Inl e')
         | None \<Rightarrow> (emit (Print message) w, Inr False))"

text \<open>\<^verbatim>\<open>decrypt_file\<close>, lines 34 to 59: the block, and the handler for what it raises.\<close>

definition decrypt_file ::
  "environment \<Rightarrow> world \<Rightarrow> path \<Rightarrow> path \<Rightarrow> bytes \<Rightarrow> bytes \<Rightarrow> bool \<Rightarrow> world \<times> (py_error + bool)"
where
  "decrypt_file env w input_file output_file key header overwrite =
     (case decrypt_file_guarded env w input_file output_file key header overwrite of
        (w', Inl e) \<Rightarrow> decrypt_file_except env input_file w' e
      | (w', Inr result) \<Rightarrow> (w', Inr result))"

section \<open>Batch walker: \<^verbatim>\<open>process_directory\<close>\<close>

text \<open>
  Lines 75 to 83, the body of the inner loop for one matching file: the pair of the
  input path and the output path computed for it.
\<close>

definition file_task :: "path \<Rightarrow> path \<Rightarrow> path \<Rightarrow> string \<Rightarrow> py_error + (path \<times> path)" where
  "file_task input_dir output_dir root_path file =
     (let input_file = root_path @ [file]
      in case relative_to input_file input_dir of
           Inl e \<Rightarrow> Inl e
         | Inr rel_path \<Rightarrow>
             (if output_dir \<noteq> input_dir then Inr (input_file, output_dir @ rel_path)
              else
                (case with_suffix input_file (path_suffix input_file @ ''.decoded'') of
                   Inl e \<Rightarrow> Inl e
                 | Inr output_file \<Rightarrow> Inr (input_file, output_file))))"

text \<open>Lines 73 to 83: \<^verbatim>\<open>for file in files\<close>, appending to \<^verbatim>\<open>files_to_process\<close>.\<close>

fun collect_files ::
  "path \<Rightarrow> path \<Rightarrow> string \<Rightarrow> path \<Rightarrow> string list \<Rightarrow> (path \<times> path) list \<Rightarrow> py_error + (path \<times> path) list"
where
  "collect_files input_dir output_dir extension root_path [] files_to_process = Inr files_to_process"
| "collect_files input_dir output_dir extension root_path (file # files) files_to_process =
     (if endswith file extension then
        (case file_task input_dir output_dir root_path file of
           Inl e \<Rightarrow> Inl e
         | Inr task \<Rightarrow>
             collect_files input_dir output_dir extension root_path files (files_to_process @ [task]))
      else collect_files input_dir output_dir extension root_path files files_to_process)"

text \<open>Lines 71 to 83: \<^verbatim>\<open>for root, _, files in os.walk(input_dir)\<close>.\<close>

fun collect_walk ::
  "path \<Rightarrow> path \<Rightarrow> string \<Rightarrow> (path \<times> string list \<times> string list) list \<Rightarrow> (path \<times> path) list
   \<Rightarrow> py_error + (path \<times> path) list"
where
  "collect_walk input_dir output_dir extension [] files_to_process = Inr files_to_process"
| "collect_walk input_dir output_dir extension ((root_path, dirs, files) # rest) files_to_process =
     (case collect_files input_dir output_dir extension root_path files files_to_process of
        Inl e \<Rightarrow> Inl e
      | Inr files_to_process' \<Rightarrow> collect_walk input_dir output_dir extension rest files_to_process')"

text \<open>
  Lines 95 to 103: \<^verbatim>\<open>for idx, (input_file, output_file) in enumerate(files_to_process)\<close>,
  with the world, the index and \<^verbatim>\<open>success_count\<close> passed along. An exception of
  \<^verbatim>\<open>progress.update\<close> or one that leaves \<^verbatim>\<open>decrypt_file\<close> is not caught and ends the loop.
\<close>

fun process_files ::
  "environment \<Rightarrow> world \<Rightarrow> bytes \<Rightarrow> bytes \<Rightarrow> bool \<Rightarrow> nat \<Rightarrow> (path \<times> path) list \<Rightarrow> nat
   \<Rightarrow> world \<times> (py_error + nat)"
where
  "process_files env w key header overwrite idx [] success_count = (w, Inr success_count)"
| "process_files env w key header overwrite idx ((input_file, output_file) # rest) success_count =
     (let w1 = emit (ProgressDescription (file_description input_file)) w
      in case raised env w (ProgressDescription (file_description input_file)) of
           Some e \<Rightarrow> (w1, Inl e)
         | None \<Rightarrow>
             (case decrypt_file env w1 input_file output_file key header overwrite of
                (w2, Inl e) \<Rightarrow> (w2, Inl e)
              | (w2, Inr ok) \<Rightarrow>
                  (let success_count' = (if ok then success_count + 1 else success_count);
                       w3 = emit (ProgressCompleted (idx + 1)) w2
                   in case raised env w2 (ProgressCompleted (idx + 1)) of
                        Some e \<Rightarrow> (w3, Inl e)
                      | None \<Rightarrow>
                          process_files env w3 key header overwrite (idx + 1) rest success_count')))"

text \<open>
  Lines 92 to 103, the body of \<^verbatim>\<open>with Progress() as progress\<close>: the task is added and
  the loop runs.
\<close>

definition progress_body ::
  "environment \<Rightarrow> world \<Rightarrow> bytes \<Rightarrow> bytes \<Rightarrow> bool \<Rightarrow> (path \<times> path) list \<Rightarrow> world \<times> (py_error + nat)"
where
  "progress_body env w key header overwrite files_to_process =
     (let w1 = emit (ProgressAddTask task_description (length files_to_process)) w
      in case raised env w (ProgressAddTask task_description (length files_to_process)) of
           Some e \<Rightarrow> (w1, Inl e)
         | None \<Rightarrow> process_files env w1 key header overwrite 0 files_to_process 0)"

text \<open>
  \<^verbatim>\<open>process_directory\<close>. No exception is caught here: one raised by the collecting loop,
  by the no-files notice of line 89, by the progress bar or by \<^verbatim>\<open>decrypt_file\<close> leaves the
  function (\<open>Inl\<close>). The \<^verbatim>\<open>with\<close> statement stops the progress bar on the way out, also
  when its body raised; an exception of the stop replaces the one of the body.
\<close>

definition process_directory ::
  "environment \<Rightarrow> world \<Rightarrow> path \<Rightarrow> path \<Rightarrow> bytes \<Rightarrow> bytes \<Rightarrow> string \<Rightarrow> bool
   \<Rightarrow> world \<times> (py_error + nat \<times> nat)"
where
  "process_directory env w input_dir output_dir key header extension overwrite =
     (case collect_walk input_dir output_dir extension (walk (root w) input_dir) [] of
        Inl e \<Rightarrow> (w, Inl e)
      | Inr files_to_process \<Rightarrow>
          (let total_count = length files_to_process
           in if total_count = 0 then
                (case raised env w (Print (no_files_message extension)) of
                   Some e \<Rightarrow> (emit (Print (no_files_message extension)) w, Inl e)
                 | None \<Rightarrow> (emit (Print (no_files_message extension)) w, Inr (0, 0)))
              else
                (case raised env w ProgressStart of
                   Some e \<Rightarrow> (emit ProgressStart w, Inl e)
                 | None \<Rightarrow>
                     (case progress_body env (emit ProgressStart w) key header overwrite files_to_process of
                        (w2, body) \<Rightarrow>
                          (case raised env w2 ProgressStop of
                             Some e \<Rightarrow> (emit ProgressStop w2, Inl e)
                           | None \<Rightarrow>
                               (case body of
                                  Inl e \<Rightarrow> (emit ProgressStop w2, Inl e)
                                | Inr success_count \<Rightarrow>
                                    (emit ProgressStop w2, Inr (success_count, total_count))))))))"

subsection \<open>What the batch claims count\<close>

text \<open>
  The results of the file decoder on the tasks taken one after the other, each on the
  file system the one before left.
\<close>

fun outcomes ::
  "environment \<Rightarrow> world \<Rightarrow> bytes \<Rightarrow> bytes \<Rightarrow> bool \<Rightarrow> (path \<times> path) list \<Rightarrow> (py_error + bool) list"
where
  "outcomes env w key header overwrite [] = []"
| "outcomes env w key header overwrite ((input_file, output_file) # rest) =
     (let (w', result) = decrypt_file env w input_file output_file key header overwrite
      in result # outcomes env w' key header overwrite rest)"

text \<open>The files a walk lists whose names end with the extension, as full paths, in order.\<close>

definition matching_files :: "string \<Rightarrow> (path \<times> string list \<times> string list) list \<Rightarrow> path list" where
  "matching_files extension listing =
     concat (map (\<lambda>(root_path, dirs, files).
                    map (\<lambda>file. root_path @ [file]) (filter (\<lambda>file. endswith file extension) files))
                 listing)"

text \<open>A name as a directory scan returns it: not empty, and without a separator.\<close>

definition valid_name :: "string \<Rightarrow> bool" where
  "valid_name name = (name \<noteq> [] \<and> CHR ''/'' \<notin> set name)"

text \<open>An environment in which no call to the console or the progress bar raises.\<close>

definition never_raises :: "environment \<Rightarrow> bool" where
  "never_raises env = (\<forall>h e. reporting env h e = None)"

section \<open>Properties of the cipher engine\<close>

lemma uint_byte_lt: "uint (k :: byte) < 256"
  using uint_bounded [of k] by simp

lemma not_and_mask: "NOT (uint (d::byte)) AND 0xFF = uint (NOT d)"
proof -
  have "NOT (uint d) AND mask 8 = uint (NOT d)"
    by (rule bit_eqI) (auto simp add: bit_simps)
  then show ?thesis by (simp add: mask_eq_exp_minus_1)
qed

lemma store_value: "uint (k::byte) XOR (NOT (uint (d::byte)) AND 0xFF) = uint (k XOR NOT d)"
  by (simp only: not_and_mask uint_xor)

lemma to_byte_store: "to_byte (uint (k::byte) XOR (NOT (uint (d::byte)) AND 0xFF)) = Inr (k XOR NOT d)"
  unfolding store_value to_byte_def using uint_byte_lt [of "k XOR NOT d"] by simp

lemma getitem_nonneg:
  "0 \<le> i \<Longrightarrow> getitem b i = (if i < int (length b) then Inr (b ! nat i) else Inl IndexError)"
  by (simp add: getitem_def)

lemma odd_test: "(int i AND 1 \<noteq> 0) = odd i"
  by (simp add: and_one_eq) presburger

lemma keyIdx_after_nonneg: "0 \<le> spec_keyIdx_after key n"
  by (induction n) simp_all

lemma keyIdx_after_bound: "key \<noteq> [] \<Longrightarrow> spec_keyIdx_after key n < int (length key)"
proof (induction n)
  case 0
  then show ?case by simp
next
  case (Suc n)
  have "x AND (int (length key) - 1) \<le> int (length key) - 1" for x
    using Suc.prems by (intro AND_upper2) (cases key, simp_all)
  then show ?case using Suc by (auto simp: less_le_not_le intro: order.strict_trans1)
qed

lemma length_transform: "length (spec_transform key i data) = length data"
  by (simp add: spec_transform_def)

lemma transform_done: "length data \<le> i \<Longrightarrow> spec_transform key i data = data"
  by (rule nth_equalityI) (simp_all add: spec_transform_def)

lemma transform_even: "even i \<Longrightarrow> spec_transform key (Suc i) data = spec_transform key i data"
  by (rule nth_equalityI) (auto simp add: spec_transform_def Suc_le_eq le_less)

lemma transform_odd:
  "odd i \<Longrightarrow> i < length data \<Longrightarrow>
   spec_transform key (Suc i) (data[i := key ! nat (spec_keyIdx_after key (Suc i)) XOR NOT (data ! i)]) = spec_transform key i data"
  by (rule nth_equalityI) (auto simp add: spec_transform_def Suc_le_eq le_less nth_list_update)

lemma decrypt_loop_Inr:
  "decrypt_loop key i k data = Inr out \<Longrightarrow> k = spec_keyIdx_after key i \<Longrightarrow> out = spec_transform key i data"
proof (induction key i k data rule: decrypt_loop.induct)
  case (1 key i k data)
  show ?case
  proof (cases "i < length data")
    case False
    with "1.prems"(1) show ?thesis
      by (simp add: decrypt_loop.simps [of key i k data] transform_done)
  next
    case inrange: True
    show ?thesis
    proof (cases "odd i")
      case False
      then have t: "\<not> (int i AND 1 \<noteq> 0)" by (simp add: odd_test)
      from "1.prems"(1) inrange t have "decrypt_loop key (Suc i) k data = Inr out"
        by (simp add: decrypt_loop.simps [of key i k data])
      moreover from False "1.prems" have "k = spec_keyIdx_after key (Suc i)" by simp
      ultimately have "out = spec_transform key (Suc i) data"
        using "1.IH"(2) inrange t by blast
      with False show ?thesis by (simp add: transform_even)
    next
      case True
      then have t: "int i AND 1 \<noteq> 0" by (simp add: odd_test)
      have k0: "0 \<le> k" using "1.prems" by (simp add: keyIdx_after_nonneg)
      define k' where "k' = (uint (key ! nat k) + int i + k) AND (int (length key) - 1)"
      have k'_eq: "k' = spec_keyIdx_after key (Suc i)"
        using True "1.prems" by (simp add: k'_def)
      then have k'0: "0 \<le> k'" by (simp add: keyIdx_after_nonneg)
      define v where "v = key ! nat k' XOR NOT (data ! i)"
      from "1.prems"(1) inrange t k0 k'0
      have g0: "getitem key k = Inr (key ! nat k)"
        and g1: "getitem key k' = Inr (key ! nat k')"
        and rec: "decrypt_loop key (Suc i) k' (data[i := v]) = Inr out"
        by (auto simp add: decrypt_loop.simps [of key i k data] getitem_nonneg k'_def v_def
            to_byte_store Let_def split: if_splits)
      have "out = spec_transform key (Suc i) (data[i := v])"
        using "1.IH"(1) [OF inrange t g0 k'_def g1 _ rec k'_eq] by (simp add: to_byte_store v_def)
      moreover have "spec_transform key (Suc i) (data[i := v]) = spec_transform key i data"
        unfolding v_def k'_eq by (rule transform_odd [OF True inrange])
      ultimately show ?thesis by simp
    qed
  qed
qed

lemma decrypt_loop_total:
  "key \<noteq> [] \<Longrightarrow> k = spec_keyIdx_after key i \<Longrightarrow> decrypt_loop key i k data = Inr (spec_transform key i data)"
proof (induction key i k data rule: decrypt_loop.induct)
  case (1 key i k data)
  show ?case
  proof (cases "i < length data")
    case False
    then show ?thesis
      by (simp add: decrypt_loop.simps [of key i k data] transform_done)
  next
    case inrange: True
    show ?thesis
    proof (cases "odd i")
      case False
      then have t: "\<not> (int i AND 1 \<noteq> 0)" by (simp add: odd_test)
      from False "1.prems" have "k = spec_keyIdx_after key (Suc i)" by simp
      then have "decrypt_loop key (Suc i) k data = Inr (spec_transform key (Suc i) data)"
        using "1.IH"(2) inrange t "1.prems"(1) by blast
      with False inrange t show ?thesis
        by (simp add: decrypt_loop.simps [of key i k data] transform_even)
    next
      case True
      then have t: "int i AND 1 \<noteq> 0" by (simp add: odd_test)
      have k0: "0 \<le> k" "k < int (length key)"
        using "1.prems" by (simp_all add: keyIdx_after_nonneg keyIdx_after_bound)
      define k' where "k' = (uint (key ! nat k) + int i + k) AND (int (length key) - 1)"
      have k'_eq: "k' = spec_keyIdx_after key (Suc i)"
        using True "1.prems" by (simp add: k'_def)
      then have k'0: "0 \<le> k'" "k' < int (length key)"
        using "1.prems"(1) by (simp_all add: keyIdx_after_nonneg keyIdx_after_bound)
      define v where "v = key ! nat k' XOR NOT (data ! i)"
      have g0: "getitem key k = Inr (key ! nat k)"
        and g1: "getitem key k' = Inr (key ! nat k')"
        using k0 k'0 by (simp_all add: getitem_nonneg)
      have tb: "to_byte (uint (key ! nat k') XOR (NOT (uint (data ! i)) AND 0xFF)) = Inr v"
        by (simp add: to_byte_store v_def)
      have "decrypt_loop key (Suc i) k' (data[i := v]) = Inr (spec_transform key (Suc i) (data[i := v]))"
        using "1.IH"(1) [OF inrange t g0 k'_def g1 tb "1.prems"(1) k'_eq] .
      then have "decrypt_loop key i k data = Inr (spec_transform key (Suc i) (data[i := v]))"
        using inrange t g0 g1 tb
        by (simp add: decrypt_loop.simps [of key i k data] k'_def [symmetric] Let_def)
      moreover have "spec_transform key (Suc i) (data[i := v]) = spec_transform key i data"
        unfolding v_def k'_eq by (rule transform_odd [OF True inrange])
      ultimately show ?thesis by simp
    qed
  qed
qed

lemma getitem_Nil: "getitem [] k = Inl IndexError"
  by (simp add: getitem_def)

lemma decrypt_loop_empty_key:
  "decrypt_loop [] i k data = Inr out \<Longrightarrow> i \<le> j \<Longrightarrow> j < length data \<Longrightarrow> even j"
proof (induction "[] :: bytes" i k data rule: decrypt_loop.induct)
  case (1 i k data)
  from "1.prems"(2,3) have inrange: "i < length data" by simp
  show ?case
  proof (cases "odd i")
    case True
    then have "int i AND 1 \<noteq> 0" by (simp add: odd_test)
    with "1.prems"(1) inrange show ?thesis
      by (simp add: decrypt_loop.simps [of "[]" i k data] getitem_Nil)
  next
    case False
    then have t: "\<not> (int i AND 1 \<noteq> 0)" by (simp add: odd_test)
    from "1.prems"(1) inrange t have rec: "decrypt_loop [] (Suc i) k data = Inr out"
      by (simp add: decrypt_loop.simps [of "[]" i k data])
    show ?thesis
    proof (cases "j = i")
      case True
      with False show ?thesis by simp
    next
      case False
      with "1.prems"(2) have "Suc i \<le> j" by simp
      then show ?thesis using "1.hyps"(2) [OF inrange t rec _ "1.prems"(3)] by simp
    qed
  qed
qed

lemma decrypt_content_Some:
  assumes "decrypt_content encrypted_content key header = Inr (Some out)"
  shows "take (length header) encrypted_content = header"
    and "out = spec_transform key 0 (drop (length header) encrypted_content)"
proof -
  show m: "take (length header) encrypted_content = header"
    using assms by (auto simp add: decrypt_content_def split: if_splits)
  show "out = spec_transform key 0 (drop (length header) encrypted_content)"
  proof (cases "drop (length header) encrypted_content = []")
    case True
    with assms m show ?thesis by (simp add: decrypt_content_def spec_transform_def)
  next
    case False
    with assms m have "decrypt_loop key 0 0 (drop (length header) encrypted_content) = Inr out"
      by (simp add: decrypt_content_def Let_def split: sum.splits)
    then show ?thesis by (rule decrypt_loop_Inr) simp
  qed
qed

lemma decrypt_content_nonempty_key:
  assumes "key \<noteq> []"
  shows "decrypt_content encrypted_content key header =
     (if take (length header) encrypted_content = header
      then Inr (Some (spec_transform key 0 (drop (length header) encrypted_content)))
      else Inr None)"
proof -
  have "decrypt_loop key 0 0 data = Inr (spec_transform key 0 data)" for data
    using assms by (rule decrypt_loop_total) simp
  then show ?thesis
    by (simp add: decrypt_content_def Let_def spec_transform_def)
qed

lemma decrypt_content_key_nonempty:
  assumes "decrypt_content encrypted_content key header = Inr (Some out)"
    and "i < length out" and "odd i"
  shows "key \<noteq> []"
proof
  assume e: "key = []"
  let ?data = "drop (length header) encrypted_content"
  have len: "length out = length ?data"
    using decrypt_content_Some(2) [OF assms(1)] by (simp add: length_transform)
  with assms(2) have ne: "?data \<noteq> []" by auto
  have m: "take (length header) encrypted_content = header"
    using decrypt_content_Some(1) [OF assms(1)] .
  from assms(1) m ne e have "decrypt_loop [] 0 0 ?data = Inr out"
    by (simp add: decrypt_content_def Let_def split: sum.splits)
  then have "even i"
    by (rule decrypt_loop_empty_key) (use assms(2) len in simp_all)
  with assms(3) show False by simp
qed

lemma byte_and_ff: "(x :: byte) AND 0xFF = x"
proof -
  have "(0xFF :: byte) = - 1" by simp
  then show ?thesis by (simp only: and.right_neutral)
qed

lemma length_encode_from: "length (spec_encode_from key i k plain) = length plain"
  by (induction plain arbitrary: i k) (simp_all add: Let_def)

lemma encode_from_nth:
  "k = spec_keyIdx_after key i \<Longrightarrow> j < length plain \<Longrightarrow>
   spec_encode_from key i k plain ! j =
     (if odd (i + j) then NOT (key ! nat (spec_keyIdx_after key (Suc (i + j))) XOR plain ! j) else plain ! j)"
proof (induction plain arbitrary: i k j)
  case Nil
  then show ?case by simp
next
  case (Cons p plain)
  show ?case
  proof (cases j)
    case 0
    with Cons.prems show ?thesis by (simp add: Let_def byte_and_ff)
  next
    case (Suc j')
    with Cons.prems have j': "j' < length plain" by simp
    show ?thesis
    proof (cases "odd i")
      case True
      define k' where "k' = (uint (key ! nat k) + int i + k) AND (int (length key) - 1)"
      have "k' = spec_keyIdx_after key (Suc i)" using True Cons.prems(1) by (simp add: k'_def)
      from Cons.IH [OF this j'] True Suc show ?thesis
        by (simp add: Let_def k'_def [symmetric] byte_and_ff)
    next
      case False
      then have "k = spec_keyIdx_after key (Suc i)" using Cons.prems(1) by simp
      from Cons.IH [OF this j'] False Suc show ?thesis by simp
    qed
  qed
qed

lemma transform_encode: "spec_transform key 0 (spec_encode plain key) = plain"
proof (rule nth_equalityI)
  show "length (spec_transform key 0 (spec_encode plain key)) = length plain"
    by (simp add: length_transform spec_encode_def length_encode_from)
next
  fix j assume "j < length (spec_transform key 0 (spec_encode plain key))"
  then have j: "j < length plain"
    by (simp add: length_transform spec_encode_def length_encode_from)
  have e: "spec_encode plain key ! j =
      (if odd j then NOT (key ! nat (spec_keyIdx_after key (Suc j)) XOR plain ! j) else plain ! j)"
    unfolding spec_encode_def using encode_from_nth [of 0 key 0 j plain] j by simp
  have "spec_transform key 0 (spec_encode plain key) ! j =
      (if odd j then key ! nat (spec_keyIdx_after key (Suc j)) XOR NOT (spec_encode plain key ! j)
       else spec_encode plain key ! j)"
    using j by (simp add: spec_transform_def spec_encode_def length_encode_from)
  also have "\<dots> = plain ! j"
    unfolding e by (simp add: bit.xor_left_self)
  finally show "spec_transform key 0 (spec_encode plain key) ! j = plain ! j" .
qed

text \<open>
  Claim C2 (round trip). With \<open>spec_encode\<close> as the specification defines it, decoding the
  header followed by the encoding of any plaintext, under any non-empty key and any
  header, returns exactly the plaintext. The key length need not be a power of two.
\<close>

theorem round_trip:
  "key \<noteq> [] \<Longrightarrow> decrypt_content (header @ spec_encode plain key) key header = Inr (Some plain)"
  by (simp add: decrypt_content_nonempty_key transform_encode)

text \<open>C2 at a key of length three and a plaintext of five bytes.\<close>

theorem round_trip_witness:
  "[2, 0, 7] \<noteq> ([] :: bytes) \<and>
   decrypt_content ([0x41, 0x42] @ spec_encode [0x10, 0xDE, 0x33, 0x44, 0x55] [2, 0, 7]) [2, 0, 7] [0x41, 0x42]
     = Inr (Some [0x10, 0xDE, 0x33, 0x44, 0x55])"
  using round_trip [of "[2, 0, 7]" "[0x41, 0x42]" "[0x10, 0xDE, 0x33, 0x44, 0x55]"] by simp

lemma transform_nth:
  "j < length data \<Longrightarrow>
   spec_transform key 0 data ! j =
     (if odd j then key ! nat (spec_keyIdx_after key (Suc j)) XOR NOT (data ! j) else data ! j)"
  by (simp add: spec_transform_def)

lemma decrypt_content_length:
  assumes "decrypt_content encoded key header = Inr (Some out)"
  shows "length out = length encoded - length header"
  using decrypt_content_Some(2) [OF assms] by (simp add: length_transform)

text \<open>
  Claim C1 (body transform). Whenever \<open>decrypt_content\<close> returns a decoded blob, the
  blob has the length of the body, and at every odd position \<open>i\<close> its byte is
  \<open>key[keyIdx] XOR ((NOT input[i]) AND 0xFF)\<close>, where \<open>keyIdx\<close> is the cursor of the
  specification's recurrence just after position \<open>i\<close> (\<open>spec_keyIdx_after key (Suc i)\<close>),
  an index inside the key; \<open>input[i]\<close> is the byte \<open>i\<close> places after the header.
  In particular the specification's example decodes to \<open>[0x10, 0xDE]\<close>.
\<close>

theorem body_transform_recurrence:
  "(decrypt_content encoded key header = Inr (Some out) \<longrightarrow>
      length out = length encoded - length header \<and>
      (\<forall>i<length out. odd i \<longrightarrow>
         0 \<le> spec_keyIdx_after key (Suc i) \<and> spec_keyIdx_after key (Suc i) < int (length key) \<and>
         out ! i = key ! nat (spec_keyIdx_after key (Suc i))
                     XOR (NOT (encoded ! (length header + i)) AND 0xFF)))
   \<and> decrypt_content [0x41, 0x42, 0x10, 0x20] [0x01, 0x02] [0x41, 0x42] = Inr (Some [0x10, 0xDE])"
proof (intro conjI impI allI)
  show "decrypt_content [0x41, 0x42, 0x10, 0x20] [0x01, 0x02] [0x41, 0x42] = Inr (Some [0x10, 0xDE])"
    by code_simp
next
  assume ok: "decrypt_content encoded key header = Inr (Some out)"
  then show "length out = length encoded - length header"
    by (rule decrypt_content_length)
next
  fix i
  assume ok: "decrypt_content encoded key header = Inr (Some out)"
    and i: "i < length out" and odd: "odd i"
  show "0 \<le> spec_keyIdx_after key (Suc i)" by (rule keyIdx_after_nonneg)
  from ok i odd have "key \<noteq> []" by (rule decrypt_content_key_nonempty)
  then show "spec_keyIdx_after key (Suc i) < int (length key)" by (rule keyIdx_after_bound)
  let ?data = "drop (length header) encoded"
  have out: "out = spec_transform key 0 ?data" using ok by (rule decrypt_content_Some(2))
  with i have i': "i < length ?data" by (simp add: length_transform)
  then have "?data ! i = encoded ! (length header + i)" by simp
  with transform_nth [OF i', of key] odd out
  show "out ! i = key ! nat (spec_keyIdx_after key (Suc i)) XOR (NOT (encoded ! (length header + i)) AND 0xFF)"
    by (simp add: byte_and_ff)
qed

text \<open>C1 at the specification's example, position 1.\<close>

theorem body_transform_recurrence_witness:
  "decrypt_content [0x41, 0x42, 0x10, 0x20] [0x01, 0x02] [0x41, 0x42] = Inr (Some [0x10, 0xDE]) \<and>
   (1::nat) < length [0x10, 0xDE :: byte] \<and> odd (1::nat) \<and>
   spec_keyIdx_after [0x01, 0x02] (Suc 1) = 0 \<and>
   [0x10, 0xDE :: byte] ! 1 = [0x01, 0x02] ! nat (spec_keyIdx_after [0x01, 0x02] (Suc 1)) XOR (NOT 0x20 AND 0xFF)"
proof -
  have ok: "decrypt_content [0x41, 0x42, 0x10, 0x20] [0x01, 0x02] [0x41, 0x42] = Inr (Some [0x10, 0xDE])"
    by code_simp
  have k: "spec_keyIdx_after [0x01, 0x02] (Suc 1) = 0"
    by code_simp
  from body_transform_recurrence
    [of "[0x41, 0x42, 0x10, 0x20]" "[0x01, 0x02]" "[0x41, 0x42]" "[0x10, 0xDE]"] ok
  have "\<forall>i<length [0x10, 0xDE :: byte]. odd i \<longrightarrow>
     [0x10, 0xDE :: byte] ! i = [0x01, 0x02] ! nat (spec_keyIdx_after [0x01, 0x02] (Suc i))
        XOR (NOT ([0x41, 0x42, 0x10, 0x20] ! (length [0x41, 0x42 :: byte] + i)) AND 0xFF)"
    by blast
  then have "[0x10, 0xDE :: byte] ! 1 = [0x01, 0x02] ! nat (spec_keyIdx_after [0x01, 0x02] (Suc 1))
        XOR (NOT ([0x41, 0x42, 0x10, 0x20] ! (length [0x41, 0x42 :: byte] + 1)) AND 0xFF)"
    by simp
  then have "[0x10, 0xDE :: byte] ! 1 = [0x01, 0x02] ! nat (spec_keyIdx_after [0x01, 0x02] (Suc 1)) XOR (NOT 0x20 AND 0xFF)"
    by simp
  with ok k show ?thesis by simp
qed

text \<open>
  Claim C3 (header gating). If the first \<open>len(header)\<close> bytes of the input differ from
  the header, and so whenever the input is shorter than the header, the result is
  \<open>None\<close>, whatever the key; and \<open>None\<close> is returned for no other reason.
\<close>

theorem header_gating:
  "(take (length header) encoded \<noteq> header \<longrightarrow> decrypt_content encoded key header = Inr None) \<and>
   (length encoded < length header \<longrightarrow> decrypt_content encoded key header = Inr None) \<and>
   (decrypt_content encoded key header = Inr None \<longrightarrow> take (length header) encoded \<noteq> header)"
proof (intro conjI impI)
  assume "take (length header) encoded \<noteq> header"
  then show "decrypt_content encoded key header = Inr None"
    by (simp add: decrypt_content_def)
next
  assume "length encoded < length header"
  then have "take (length header) encoded \<noteq> header" by auto
  then show "decrypt_content encoded key header = Inr None"
    by (simp add: decrypt_content_def)
next
  assume "decrypt_content encoded key header = Inr None"
  then show "take (length header) encoded \<noteq> header"
    by (auto simp add: decrypt_content_def Let_def split: if_splits sum.splits)
qed

text \<open>C3 at a wrong second header byte (with an empty key) and at a truncated input.\<close>

theorem header_gating_witness:
  "take (length [0x41, 0x42 :: byte]) [0x41, 0x43, 0x10] \<noteq> [0x41, 0x42 :: byte] \<and>
   decrypt_content [0x41, 0x43, 0x10] [] [0x41, 0x42] = Inr None \<and>
   length [0x41 :: byte] < length [0x41, 0x42 :: byte] \<and>
   decrypt_content [0x41] [0x01, 0x02] [0x41, 0x42] = Inr None"
  using header_gating [of "[0x41, 0x42]" "[0x41, 0x43, 0x10]" "[]"]
    header_gating [of "[0x41, 0x42]" "[0x41]" "[0x01, 0x02]"]
  by simp

text \<open>
  Claim C8 (even-byte invariance). Whenever \<open>decrypt_content\<close> returns a decoded blob,
  every even-indexed byte of it is the byte at the same index of the input body.
\<close>

theorem even_byte_invariance:
  "decrypt_content encoded key header = Inr (Some out) \<Longrightarrow>
   length out = length encoded - length header \<and>
   (\<forall>i<length out. even i \<longrightarrow> out ! i = encoded ! (length header + i))"
proof (intro conjI allI impI)
  assume ok: "decrypt_content encoded key header = Inr (Some out)"
  then show "length out = length encoded - length header"
    by (rule decrypt_content_length)
  fix i assume i: "i < length out" and ev: "even i"
  let ?data = "drop (length header) encoded"
  have out: "out = spec_transform key 0 ?data" using ok by (rule decrypt_content_Some(2))
  with i have i': "i < length ?data" by (simp add: length_transform)
  then have "?data ! i = encoded ! (length header + i)" by simp
  with transform_nth [OF i', of key] ev out
  show "out ! i = encoded ! (length header + i)" by simp
qed

text \<open>C8 at a body of three bytes: positions 0 and 2 pass through.\<close>

theorem even_byte_invariance_witness:
  "decrypt_content [0x41, 0x42, 0x10, 0x20, 0x30] [0x01, 0x02] [0x41, 0x42] = Inr (Some [0x10, 0xDE, 0x30]) \<and>
   [0x10, 0xDE, 0x30 :: byte] ! 0 = [0x41, 0x42, 0x10, 0x20, 0x30] ! (length [0x41, 0x42 :: byte] + 0) \<and>
   [0x10, 0xDE, 0x30 :: byte] ! 2 = [0x41, 0x42, 0x10, 0x20, 0x30] ! (length [0x41, 0x42 :: byte] + 2)"
proof -
  have ok: "decrypt_content [0x41, 0x42, 0x10, 0x20, 0x30] [0x01, 0x02] [0x41, 0x42]
      = Inr (Some [0x10, 0xDE, 0x30])"
    by code_simp
  from even_byte_invariance [OF ok]
  have "\<forall>i<length [0x10, 0xDE, 0x30 :: byte]. even i \<longrightarrow>
      [0x10, 0xDE, 0x30 :: byte] ! i = [0x41, 0x42, 0x10, 0x20, 0x30] ! (length [0x41, 0x42 :: byte] + i)"
    by blast
  then have "[0x10, 0xDE, 0x30 :: byte] ! 0 = [0x41, 0x42, 0x10, 0x20, 0x30] ! (length [0x41, 0x42 :: byte] + 0)"
    and "[0x10, 0xDE, 0x30 :: byte] ! 2 = [0x41, 0x42, 0x10, 0x20, 0x30] ! (length [0x41, 0x42 :: byte] + 2)"
    by simp_all
  with ok show ?thesis by blast
qed

lemma mask_in_range:
  "key \<noteq> [] \<Longrightarrow> 0 \<le> x AND (int (length key) - 1) \<and> x AND (int (length key) - 1) < int (length key)"
proof -
  assume "key \<noteq> []"
  then have m: "0 \<le> int (length key) - 1" by (cases key) simp_all
  then have "x AND (int (length key) - 1) \<le> int (length key) - 1" by (rule AND_upper2)
  with m show ?thesis by simp
qed

text \<open>
  Claim C9 (keys of any length). For every non-empty key \<open>decrypt_content\<close> raises
  nothing: it returns \<open>None\<close> exactly on a header mismatch and otherwise a blob of the
  body's length. The masked value \<open>x AND (keyLen - 1)\<close> and every value of the cursor lie
  in \<open>0 ..< keyLen\<close>. The length is not validated: a key of length three is decoded
  with the mask, and there the masked cursor (2) is not the remainder modulo three (0).
\<close>

theorem any_nonempty_key_is_safe:
  "key \<noteq> [] \<Longrightarrow>
   (\<exists>r. decrypt_content encoded key header = Inr r \<and>
        (r = None \<longleftrightarrow> take (length header) encoded \<noteq> header) \<and>
        (\<forall>out. r = Some out \<longrightarrow> length out = length encoded - length header)) \<and>
   (\<forall>x. 0 \<le> x AND (int (length key) - 1) \<and> x AND (int (length key) - 1) < int (length key)) \<and>
   (\<forall>n. 0 \<le> spec_keyIdx_after key n \<and> spec_keyIdx_after key n < int (length key)) \<and>
   decrypt_content [0x10, 0x20] [0x02, 0x00, 0x07] [] = Inr (Some [0x10, 0xD8]) \<and>
   spec_keyIdx_after [0x02, 0x00, 0x07] 2 = 2 \<and> spec_keyIdx_mod [0x02, 0x00, 0x07] 2 = 0"
proof (intro conjI allI)
  assume ne: "key \<noteq> []"
  show "\<exists>r. decrypt_content encoded key header = Inr r \<and>
        (r = None \<longleftrightarrow> take (length header) encoded \<noteq> header) \<and>
        (\<forall>out. r = Some out \<longrightarrow> length out = length encoded - length header)"
    by (simp add: decrypt_content_nonempty_key [OF ne] length_transform)
  show "0 \<le> x AND (int (length key) - 1)" for x
    using mask_in_range [OF ne] by blast
  show "x AND (int (length key) - 1) < int (length key)" for x
    using mask_in_range [OF ne] by blast
  show "0 \<le> spec_keyIdx_after key n" for n by (rule keyIdx_after_nonneg)
  show "spec_keyIdx_after key n < int (length key)" for n using ne by (rule keyIdx_after_bound)
  show "decrypt_content [0x10, 0x20] [0x02, 0x00, 0x07] [] = Inr (Some [0x10, 0xD8])"
    by code_simp
  show "spec_keyIdx_after [0x02, 0x00, 0x07] 2 = 2" by code_simp
  show "spec_keyIdx_mod [0x02, 0x00, 0x07] 2 = 0" by code_simp
qed

text \<open>C9 at a key of length three.\<close>

theorem any_nonempty_key_is_safe_witness:
  "[0x02, 0x00, 0x07] \<noteq> ([] :: bytes) \<and>
   (\<exists>r. decrypt_content [0x41, 0x10, 0x20, 0x30, 0x40] [0x02, 0x00, 0x07] [0x41] = Inr r) \<and>
   spec_keyIdx_after [0x02, 0x00, 0x07] 4 < 3"
proof -
  have ne: "[0x02, 0x00, 0x07] \<noteq> ([] :: bytes)" by simp
  note safe = any_nonempty_key_is_safe [OF ne, of "[0x41, 0x10, 0x20, 0x30, 0x40]" "[0x41]"]
  from safe have "\<exists>r. decrypt_content [0x41, 0x10, 0x20, 0x30, 0x40] [0x02, 0x00, 0x07] [0x41] = Inr r"
    by blast
  moreover from safe have "spec_keyIdx_after [0x02, 0x00, 0x07] 4 < int (length [0x02, 0x00, 0x07 :: byte])"
    by blast
  ultimately show ?thesis using ne by simp
qed

section \<open>Properties of the file decoder\<close>

lemma root_emit: "root (emit e w) = root w"
  by (simp add: emit_def)

lemma trace_emit: "trace (emit e w) = trace w @ [e]"
  by (simp add: emit_def)

lemma events_since_self: "events_since w w = []"
  by (simp add: events_since_def)

lemma events_since_emit: "events_since w (emit e w') = events_since w w' @ [e]"
  if "length (trace w) \<le> length (trace w')"
  using that by (simp add: events_since_def trace_emit)

lemma events_emit1: "events_since w (emit a w) = [a]"
  by (simp add: events_since_def trace_emit)

lemma events_emit2: "events_since w (emit b (emit a w)) = [a, b]"
  by (simp add: events_since_def trace_emit)

lemma events_emit3: "events_since w (emit c (emit b (emit a w))) = [a, b, c]"
  by (simp add: events_since_def trace_emit)

lemma events_emit4: "events_since w (emit d (emit c (emit b (emit a w)))) = [a, b, c, d]"
  by (simp add: events_since_def trace_emit)

text \<open>The handler: it prints, changes no file, and never reports success.\<close>

lemma decrypt_file_except_world:
  "fst (decrypt_file_except env input_file w e) =
     emit (Print (error_message input_file (exc_str env (trace w) e))) w"
  by (simp add: decrypt_file_except_def Let_def split: option.splits)

lemma decrypt_file_except_result:
  "snd (decrypt_file_except env input_file w e) =
     (case raised env w (Print (error_message input_file (exc_str env (trace w) e))) of
        None \<Rightarrow> Inr False | Some e' \<Rightarrow> Inl e')"
  by (simp add: decrypt_file_except_def Let_def split: option.splits)

lemma decrypt_file_except_not_True:
  "snd (decrypt_file_except env input_file w e) \<noteq> Inr True"
  by (simp add: decrypt_file_except_result split: option.splits)

text \<open>The skip branch.\<close>

lemma decrypt_file_skip:
  assumes "path_exists (root w) output_file"
  shows "decrypt_file env w input_file output_file key header False =
    (case raised env (emit (PathExists output_file) w) (Print (skip_message input_file output_file)) of
       None \<Rightarrow>
         (emit (Print (skip_message input_file output_file)) (emit (PathExists output_file) w), Inr False)
     | Some e \<Rightarrow>
         decrypt_file_except env input_file
           (emit (Print (skip_message input_file output_file)) (emit (PathExists output_file) w)) e)"
  using assms by (simp add: decrypt_file_def decrypt_file_guarded_def split: option.splits)

lemma decrypt_file_skip_world:
  assumes "path_exists (root w) output_file"
    and "decrypt_file env w input_file output_file key header False = (w', r)"
  shows "root w' = root w"
    and "r \<noteq> Inr True"
    and "\<exists>es. events_since w w' =
            PathExists output_file # Print (skip_message input_file output_file) # es \<and>
          (\<forall>e \<in> set es. \<exists>m. e = Print m)"
proof -
  let ?w2 = "emit (Print (skip_message input_file output_file)) (emit (PathExists output_file) w)"
  show "root w' = root w" and "r \<noteq> Inr True"
    and "\<exists>es. events_since w w' =
            PathExists output_file # Print (skip_message input_file output_file) # es \<and>
          (\<forall>e \<in> set es. \<exists>m. e = Print m)"
  proof (atomize (full), cases "raised env (emit (PathExists output_file) w)
      (Print (skip_message input_file output_file))")
    case None
    with decrypt_file_skip [OF assms(1), of env input_file key header] assms(2)
    have "w' = ?w2" and "r = Inr False" by simp_all
    then show "root w' = root w \<and> r \<noteq> Inr True \<and>
        (\<exists>es. events_since w w' =
            PathExists output_file # Print (skip_message input_file output_file) # es \<and>
          (\<forall>e \<in> set es. \<exists>m. e = Print m))"
      by (simp add: root_emit events_emit2)
  next
    case (Some e)
    with decrypt_file_skip [OF assms(1), of env input_file key header] assms(2)
    have d: "decrypt_file_except env input_file ?w2 e = (w', r)" by simp
    from d have "w' = fst (decrypt_file_except env input_file ?w2 e)"
      and "r = snd (decrypt_file_except env input_file ?w2 e)" by simp_all
    then show "root w' = root w \<and> r \<noteq> Inr True \<and>
        (\<exists>es. events_since w w' =
            PathExists output_file # Print (skip_message input_file output_file) # es \<and>
          (\<forall>e \<in> set es. \<exists>m. e = Print m))"
      by (simp add: decrypt_file_except_world decrypt_file_except_not_True root_emit events_emit3)
  qed
qed

text \<open>Where the skip message prints, the call returns \<open>False\<close>, as it was meant to.\<close>

lemma decrypt_file_skip_printed:
  assumes "path_exists (root w) output_file"
    and "raised env (emit (PathExists output_file) w) (Print (skip_message input_file output_file)) = None"
  shows "decrypt_file env w input_file output_file key header False =
    (emit (Print (skip_message input_file output_file)) (emit (PathExists output_file) w), Inr False)"
  using decrypt_file_skip [OF assms(1), of env input_file key header] assms(2) by simp

text \<open>Where the console refuses both messages, the exception leaves the function.\<close>

lemma decrypt_file_skip_raises:
  assumes "rich_console env"
    and "path_exists (root w) output_file"
    and "closes_unopened (skip_message input_file output_file)"
    and "\<forall>text. closes_unopened (error_message input_file text)"
  shows "snd (decrypt_file env w input_file output_file key header False) = Inl MarkupError"
proof -
  let ?w1 = "emit (PathExists output_file) w"
  let ?w2 = "emit (Print (skip_message input_file output_file)) ?w1"
  from assms(1,3) have s: "raised env ?w1 (Print (skip_message input_file output_file)) = Some MarkupError"
    by (simp add: rich_console_def raised_def)
  from assms(1,4)
  have h: "raised env ?w2 (Print (error_message input_file (exc_str env (trace ?w2) MarkupError)))
      = Some MarkupError"
    by (simp add: rich_console_def raised_def)
  from decrypt_file_skip [OF assms(2), of env input_file key header] s
  have "decrypt_file env w input_file output_file key header False =
      decrypt_file_except env input_file ?w2 MarkupError"
    by simp
  with h show ?thesis by (simp add: decrypt_file_except_result)
qed

lemma rich_console_plain: "rich_console plain_console"
  by (simp add: rich_console_def plain_console_def)

text \<open>
  Claim C5 (skip semantics) against the code. The claim has every call with
  \<^verbatim>\<open>overwrite\<close> false and a file at the output path return \<open>False\<close>. The code prints
  the skip message first, with both paths put into it unescaped. Let the console be
  \<^verbatim>\<open>rich\<close>'s, and let the skip message and the handler's message for the input path
  each hold a closing tag with nothing to close. Then the print of line 43 raises
  \<^verbatim>\<open>MarkupError\<close>, the handler's print of line 57 raises it again, and the call raises
  instead of returning \<open>False\<close>. The rest of the claim stands there too: the input is
  not read and the file system is unchanged.
\<close>

theorem skip_raises_markup_error:
  assumes "rich_console env"
    and "lookup (root w) output_file = Some (File existing)"
    and "closes_unopened (skip_message input_file output_file)"
    and "\<forall>text. closes_unopened (error_message input_file text)"
  shows "snd (decrypt_file env w input_file output_file key header False) = Inl MarkupError \<and>
    snd (decrypt_file env w input_file output_file key header False) \<noteq> Inr False \<and>
    root (fst (decrypt_file env w input_file output_file key header False)) = root w \<and>
    ReadBytes input_file \<notin>
      set (events_since w (fst (decrypt_file env w input_file output_file key header False)))"
proof -
  from assms(2) have ex: "path_exists (root w) output_file"
    by (simp add: path_exists_def)
  let ?d = "decrypt_file env w input_file output_file key header False"
  have d: "?d = (fst ?d, snd ?d)" by simp
  from decrypt_file_skip_raises [OF assms(1) ex assms(3,4)]
  have r: "snd ?d = Inl MarkupError" .
  from decrypt_file_skip_world(1) [OF ex d] have fs: "root (fst ?d) = root w" .
  from decrypt_file_skip_world(3) [OF ex d]
  have "ReadBytes input_file \<notin> set (events_since w (fst ?d))" by auto
  with r fs show ?thesis by simp
qed

text \<open>
  C5 at the input \<^verbatim>\<open>x].php\<close> in the directory \<^verbatim>\<open>d[\<close>, whose path reads \<^verbatim>\<open>d[/x].php\<close>,
  with an existing output.
\<close>

theorem skip_raises_markup_error_witness:
  "rich_console plain_console \<and>
   lookup (root \<lparr>root = Dir [(''d['', Dir [(''x].php'', File [0x41, 0x42, 0x10, 0x20])]),
                              (''out.php'', File [0x07])], trace = []\<rparr>) [''out.php'']
     = Some (File [0x07]) \<and>
   skip_message [''d['', ''x].php''] [''out.php'']
     = ''[bold yellow][!][/] Skipping d[/x].php: Output file out.php already exists'' \<and>
   closes_unopened (skip_message [''d['', ''x].php''] [''out.php'']) \<and>
   snd (decrypt_file plain_console
          \<lparr>root = Dir [(''d['', Dir [(''x].php'', File [0x41, 0x42, 0x10, 0x20])]),
                       (''out.php'', File [0x07])], trace = []\<rparr>
          [''d['', ''x].php''] [''out.php''] [0x01, 0x02] [0x41, 0x42] False) = Inl MarkupError"
proof -
  define w where "w = \<lparr>root = Dir [(''d['', Dir [(''x].php'', File [0x41, 0x42, 0x10, 0x20])]),
                              (''out.php'', File [0x07])], trace = []\<rparr>"
  have l: "lookup (root w) [''out.php''] = Some (File [0x07])"
    unfolding w_def by simp
  have m: "skip_message [''d['', ''x].php''] [''out.php'']
     = ''[bold yellow][!][/] Skipping d[/x].php: Output file out.php already exists''"
    by (simp add: skip_message_def)
  have s: "closes_unopened (skip_message [''d['', ''x].php''] [''out.php''])"
    by (simp add: closes_unopened_def skip_message_def tag_first_def)
  have e: "\<forall>text. closes_unopened (error_message [''d['', ''x].php''] text)"
    by (simp add: closes_unopened_def error_message_def tag_first_def)
  from skip_raises_markup_error [OF rich_console_plain l s e, of "[0x01, 0x02]" "[0x41, 0x42]"]
  have "snd (decrypt_file plain_console w [''d['', ''x].php''] [''out.php'']
          [0x01, 0x02] [0x41, 0x42] False) = Inl MarkupError"
    by blast
  with rich_console_plain l m s show ?thesis unfolding w_def by blast
qed

text \<open>
  A header mismatch and an empty decode end alike: after the existence test, if it is
  made, and the read, nothing more happens and nothing is printed.
\<close>

lemma decrypt_file_not_decoded:
  assumes go: "overwrite \<or> \<not> path_exists (root w) output_file"
    and rd: "read_bytes (root w) input_file = Inr encoded"
    and dec: "decrypt_content encoded key header = Inr None \<or>
              decrypt_content encoded key header = Inr (Some [])"
  shows "decrypt_file env w input_file output_file key header overwrite =
    (emit (ReadBytes input_file) (if \<not> overwrite then emit (PathExists output_file) w else w),
     Inr False)"
  using go rd dec
  by (auto simp add: decrypt_file_def decrypt_file_guarded_def Let_def root_emit)

text \<open>
  Claim C4 (zero-length decode). For an input equal to the header \<open>decrypt_content\<close>
  returns the empty blob, which is not \<open>None\<close>. \<open>decrypt_file\<close> nevertheless treats a
  file that holds just the header as it treats a file whose header does not match: it
  never reports success, it leaves the file system alone, and when it gets as far as
  reading the input it returns \<open>False\<close>, in the very same world in both cases and
  whatever the console does, for nothing is printed on that way. (It does not get that
  far when the call is skipped; then too it returns \<open>False\<close> if the skip message prints.)
\<close>

theorem zero_length_decode:
  "decrypt_content header key header = Inr (Some []) \<and>
   decrypt_content header key header \<noteq> Inr None \<and>
   (read_bytes (root w) input_file = Inr encoded \<and>
    (decrypt_content encoded key header = Inr None \<or> encoded = header) \<longrightarrow>
      snd (decrypt_file env w input_file output_file key header overwrite) \<noteq> Inr True \<and>
      root (fst (decrypt_file env w input_file output_file key header overwrite)) = root w \<and>
      (raised env (emit (PathExists output_file) w) (Print (skip_message input_file output_file)) = None
         \<longrightarrow> snd (decrypt_file env w input_file output_file key header overwrite) = Inr False) \<and>
      (overwrite \<or> \<not> path_exists (root w) output_file \<longrightarrow>
         decrypt_file env w input_file output_file key header overwrite =
           (emit (ReadBytes input_file) (if \<not> overwrite then emit (PathExists output_file) w else w),
            Inr False)))"
proof (intro conjI impI)
  show e: "decrypt_content header key header = Inr (Some [])"
    by (simp add: decrypt_content_def)
  then show "decrypt_content header key header \<noteq> Inr None" by simp
next
  assume a: "read_bytes (root w) input_file = Inr encoded \<and>
    (decrypt_content encoded key header = Inr None \<or> encoded = header)"
  then have rd: "read_bytes (root w) input_file = Inr encoded"
    and dec: "decrypt_content encoded key header = Inr None \<or>
              decrypt_content encoded key header = Inr (Some [])"
    by (auto simp add: decrypt_content_def)
  let ?r = "decrypt_file env w input_file output_file key header overwrite"
  have "snd ?r \<noteq> Inr True \<and> root (fst ?r) = root w"
  proof (cases "overwrite \<or> \<not> path_exists (root w) output_file")
    case True
    from decrypt_file_not_decoded [OF True rd dec] show ?thesis
      by (simp add: root_emit)
  next
    case False
    then have ex: "path_exists (root w) output_file" and no: "\<not> overwrite" by simp_all
    have d: "decrypt_file env w input_file output_file key header False =
        (fst (decrypt_file env w input_file output_file key header False),
         snd (decrypt_file env w input_file output_file key header False))" by simp
    from decrypt_file_skip_world(1,2) [OF ex d] no show ?thesis by simp
  qed
  then show "snd ?r \<noteq> Inr True" and "root (fst ?r) = root w" by simp_all
  show "snd ?r = Inr False"
    if p: "raised env (emit (PathExists output_file) w) (Print (skip_message input_file output_file)) = None"
  proof (cases "overwrite \<or> \<not> path_exists (root w) output_file")
    case True
    from decrypt_file_not_decoded [OF True rd dec] show ?thesis by simp
  next
    case False
    then have ex: "path_exists (root w) output_file" and no: "\<not> overwrite" by simp_all
    from decrypt_file_skip_printed [OF ex p, of key header] no show ?thesis by simp
  qed
  assume "overwrite \<or> \<not> path_exists (root w) output_file"
  then show "?r =
      (emit (ReadBytes input_file) (if \<not> overwrite then emit (PathExists output_file) w else w),
       Inr False)"
    using rd dec by (rule decrypt_file_not_decoded)
qed

text \<open>C4 at a file that is just the header and at a file with another header.\<close>

theorem zero_length_decode_witness:
  "read_bytes (root \<lparr>root = Dir [(''e.php'', File [0x41, 0x42]), (''x.php'', File [0x00, 0x01])], trace = []\<rparr>)
      [''e.php''] = Inr [0x41, 0x42] \<and>
   decrypt_content [0x41, 0x42] [0x01, 0x02] [0x41, 0x42] = Inr (Some []) \<and>
   decrypt_file plain_console
      \<lparr>root = Dir [(''e.php'', File [0x41, 0x42]), (''x.php'', File [0x00, 0x01])], trace = []\<rparr>
      [''e.php''] [''e.out''] [0x01, 0x02] [0x41, 0x42] False
     = (\<lparr>root = Dir [(''e.php'', File [0x41, 0x42]), (''x.php'', File [0x00, 0x01])],
         trace = [PathExists [''e.out''], ReadBytes [''e.php'']]\<rparr>, Inr False) \<and>
   decrypt_content [0x00, 0x01] [0x01, 0x02] [0x41, 0x42] = Inr None \<and>
   decrypt_file plain_console
      \<lparr>root = Dir [(''e.php'', File [0x41, 0x42]), (''x.php'', File [0x00, 0x01])], trace = []\<rparr>
      [''x.php''] [''x.out''] [0x01, 0x02] [0x41, 0x42] False
     = (\<lparr>root = Dir [(''e.php'', File [0x41, 0x42]), (''x.php'', File [0x00, 0x01])],
         trace = [PathExists [''x.out''], ReadBytes [''x.php'']]\<rparr>, Inr False)"
proof -
  define w where "w = \<lparr>root = Dir [(''e.php'', File [0x41, 0x42]), (''x.php'', File [0x00, 0x01])], trace = []\<rparr>"
  have r1: "read_bytes (root w) [''e.php''] = Inr [0x41, 0x42]"
    unfolding w_def by (simp add: read_bytes_def)
  have r2: "read_bytes (root w) [''x.php''] = Inr [0x00, 0x01]"
    unfolding w_def by (simp add: read_bytes_def)
  have n: "decrypt_content [0x00, 0x01] [0x01, 0x02] [0x41, 0x42] = Inr None"
    by (simp add: decrypt_content_def)
  have g1: "False \<or> \<not> path_exists (root w) [''e.out'']"
    unfolding w_def by (simp add: path_exists_def)
  have g2: "False \<or> \<not> path_exists (root w) [''x.out'']"
    unfolding w_def by (simp add: path_exists_def)
  note z1 = zero_length_decode [of "[0x41, 0x42]" "[0x01, 0x02]" w "[''e.php'']" "[0x41, 0x42]"
      plain_console "[''e.out'']" False]
  note z2 = zero_length_decode [of "[0x41, 0x42]" "[0x01, 0x02]" w "[''x.php'']" "[0x00, 0x01]"
      plain_console "[''x.out'']" False]
  from z1 have a: "decrypt_content [0x41, 0x42] [0x01, 0x02] [0x41, 0x42] = Inr (Some [])"
    by blast
  from z1 r1 g1
  have b: "decrypt_file plain_console w [''e.php''] [''e.out''] [0x01, 0x02] [0x41, 0x42] False =
      (emit (ReadBytes [''e.php'']) (if \<not> False then emit (PathExists [''e.out'']) w else w), Inr False)"
    by blast
  from z2 r2 n g2
  have c: "decrypt_file plain_console w [''x.php''] [''x.out''] [0x01, 0x02] [0x41, 0x42] False =
      (emit (ReadBytes [''x.php'']) (if \<not> False then emit (PathExists [''x.out'']) w else w), Inr False)"
    by blast
  from r1 a b n c show ?thesis unfolding w_def by (simp add: emit_def)
qed

text \<open>
  What a call that reports success, changes the file system or attempts a change must
  have gone through: it was not skipped, and the input decoded to a non-empty blob.
\<close>

lemma decrypt_file_effect:
  assumes "decrypt_file env w input_file output_file key header overwrite = (w', r)"
    and "r = Inr True \<or> root w' \<noteq> root w \<or> (\<exists>e \<in> set (events_since w w'). changes_files e)"
  shows "(overwrite \<or> \<not> path_exists (root w) output_file) \<and>
    (\<exists>encoded out. read_bytes (root w) input_file = Inr encoded \<and>
        decrypt_content encoded key header = Inr (Some out) \<and> out \<noteq> [])"
proof (cases "overwrite \<or> \<not> path_exists (root w) output_file")
  case False
  then have ex: "path_exists (root w) output_file" and no: "\<not> overwrite" by simp_all
  from assms(1) no
  have d: "decrypt_file env w input_file output_file key header False = (w', r)" by simp
  from decrypt_file_skip_world(3) [OF ex d] obtain es
    where es: "events_since w w' =
        PathExists output_file # Print (skip_message input_file output_file) # es"
      and pr: "\<forall>e \<in> set es. \<exists>m. e = Print m"
    by blast
  have "\<not> changes_files e" if "e \<in> set es" for e
    using pr that by fastforce
  with es have "\<forall>e \<in> set (events_since w w'). \<not> changes_files e" by simp
  with decrypt_file_skip_world(1,2) [OF ex d] assms(2) show ?thesis by blast
next
  case go: True
  define w1 where "w1 = (if \<not> overwrite then emit (PathExists output_file) w else w)"
  define w2 where "w2 = emit (ReadBytes input_file) w1"
  have r2: "root w2 = root w" by (simp add: w2_def w1_def root_emit)
  have e2: "\<forall>e \<in> set (events_since w w2). \<not> changes_files e"
    by (simp add: w2_def w1_def events_emit1 events_emit2)
  have handled: "root w' = root w \<and> r \<noteq> Inr True \<and>
      (\<forall>e \<in> set (events_since w w'). \<not> changes_files e)"
    if "decrypt_file_except env input_file w2 x = (w', r)" for x
  proof -
    from that have w': "w' = emit (Print (error_message input_file (exc_str env (trace w2) x))) w2"
      and r: "r = snd (decrypt_file_except env input_file w2 x)"
      using decrypt_file_except_world [of env input_file w2 x] by simp_all
    from w' have "\<forall>e \<in> set (events_since w w'). \<not> changes_files e"
      by (simp add: w2_def w1_def events_emit2 events_emit3)
    with w' r r2 show ?thesis
      by (simp add: root_emit decrypt_file_except_not_True)
  qed
  have body: "decrypt_file_guarded env w input_file output_file key header overwrite =
      (case read_bytes (root w) input_file of
         Inl e \<Rightarrow> (w2, Inl e)
       | Inr encrypted_content \<Rightarrow>
           (case decrypt_content encrypted_content key header of
              Inl e \<Rightarrow> (w2, Inl e)
            | Inr None \<Rightarrow> (w2, Inr False)
            | Inr (Some decrypted_content) \<Rightarrow>
                (if decrypted_content = [] then (w2, Inr False)
                 else
                   (let w3 = emit (Mkdir (parent output_file)) w2
                    in case mkdir_parents (root w3) (parent output_file) of
                         Inl e \<Rightarrow> (w3, Inl e)
                       | Inr fs1 \<Rightarrow>
                           (let w4 = emit (WriteBytes output_file decrypted_content)
                                       (w3\<lparr>root := fs1\<rparr>)
                            in case write_bytes fs1 output_file decrypted_content of
                                 Inl e \<Rightarrow> (w4, Inl e)
                               | Inr fs2 \<Rightarrow> (w4\<lparr>root := fs2\<rparr>, Inr True))))))"
    using go unfolding decrypt_file_guarded_def w2_def w1_def Let_def
    by (auto simp add: root_emit)
  show ?thesis
  proof (cases "read_bytes (root w) input_file")
    case (Inl e)
    with body assms(1) have "decrypt_file_except env input_file w2 e = (w', r)"
      by (simp add: decrypt_file_def)
    from handled [OF this] assms(2) show ?thesis by blast
  next
    case rd: (Inr encoded)
    show ?thesis
    proof (cases "decrypt_content encoded key header")
      case (Inl e)
      with body assms(1) rd have "decrypt_file_except env input_file w2 e = (w', r)"
        by (simp add: decrypt_file_def)
      from handled [OF this] assms(2) show ?thesis by blast
    next
      case dec: (Inr res)
      show ?thesis
      proof (cases res)
        case None
        with body assms(1) rd dec have "w' = w2" and "r = Inr False"
          by (simp_all add: decrypt_file_def)
        with r2 e2 assms(2) show ?thesis by simp
      next
        case (Some out)
        show ?thesis
        proof (cases "out = []")
          case True
          with body assms(1) rd dec Some have "w' = w2" and "r = Inr False"
            by (simp_all add: decrypt_file_def)
          with r2 e2 assms(2) show ?thesis by simp
        next
          case False
          with go rd dec Some show ?thesis by simp
        qed
      qed
    qed
  qed
qed

text \<open>
  Claim C10 (failure atomicity). If the output exists and \<^verbatim>\<open>overwrite\<close> is false, or the
  input is read and its header does not match or its decode is empty, then
  \<open>decrypt_file\<close> does not report success, the file system (so what is at the output
  path) is unchanged, and neither a directory creation nor a write was attempted. In the
  two decoding cases the result is \<open>False\<close>; in the skipped case it is \<open>False\<close> where
  the skip message prints. Conversely the file system changes, or a directory creation
  or a write is attempted, only when the call was not skipped and the input decoded to a
  non-empty blob.
\<close>

theorem failure_atomicity:
  assumes "decrypt_file env w input_file output_file key header overwrite = (w', r)"
  shows "(((\<not> overwrite \<and> path_exists (root w) output_file) \<or>
           (\<exists>encoded. read_bytes (root w) input_file = Inr encoded \<and>
              (decrypt_content encoded key header = Inr None \<or>
               decrypt_content encoded key header = Inr (Some [])))) \<longrightarrow>
          r \<noteq> Inr True \<and> root w' = root w \<and>
          lookup (root w') output_file = lookup (root w) output_file \<and>
          (\<forall>e \<in> set (events_since w w'). \<not> changes_files e)) \<and>
         ((overwrite \<or> \<not> path_exists (root w) output_file) \<and>
          (\<exists>encoded. read_bytes (root w) input_file = Inr encoded \<and>
              (decrypt_content encoded key header = Inr None \<or>
               decrypt_content encoded key header = Inr (Some []))) \<longrightarrow>
          r = Inr False) \<and>
         (\<not> overwrite \<and> path_exists (root w) output_file \<and>
          raised env (emit (PathExists output_file) w) (Print (skip_message input_file output_file)) = None
          \<longrightarrow> r = Inr False) \<and>
         ((root w' \<noteq> root w \<or> (\<exists>e \<in> set (events_since w w'). changes_files e)) \<longrightarrow>
          (overwrite \<or> \<not> path_exists (root w) output_file) \<and>
          (\<exists>encoded out. read_bytes (root w) input_file = Inr encoded \<and>
             decrypt_content encoded key header = Inr (Some out) \<and> out \<noteq> []))"
proof (intro conjI impI)
  assume "root w' \<noteq> root w \<or> (\<exists>e \<in> set (events_since w w'). changes_files e)"
  then have c: "r = Inr True \<or> root w' \<noteq> root w \<or> (\<exists>e \<in> set (events_since w w'). changes_files e)"
    by blast
  from decrypt_file_effect [OF assms c]
  show "overwrite \<or> \<not> path_exists (root w) output_file"
    and "\<exists>encoded out. read_bytes (root w) input_file = Inr encoded \<and>
             decrypt_content encoded key header = Inr (Some out) \<and> out \<noteq> []"
    by blast+
next
  assume fail: "(\<not> overwrite \<and> path_exists (root w) output_file) \<or>
     (\<exists>encoded. read_bytes (root w) input_file = Inr encoded \<and>
        (decrypt_content encoded key header = Inr None \<or>
         decrypt_content encoded key header = Inr (Some [])))"
  have none: "\<not> (r = Inr True \<or> root w' \<noteq> root w \<or> (\<exists>e \<in> set (events_since w w'). changes_files e))"
  proof
    assume "r = Inr True \<or> root w' \<noteq> root w \<or> (\<exists>e \<in> set (events_since w w'). changes_files e)"
    from decrypt_file_effect [OF assms this] fail show False by auto
  qed
  then show "r \<noteq> Inr True" and r: "root w' = root w"
    and "\<forall>e \<in> set (events_since w w'). \<not> changes_files e"
    by blast+
  from r show "lookup (root w') output_file = lookup (root w) output_file" by simp
next
  assume a: "(overwrite \<or> \<not> path_exists (root w) output_file) \<and>
          (\<exists>encoded. read_bytes (root w) input_file = Inr encoded \<and>
              (decrypt_content encoded key header = Inr None \<or>
               decrypt_content encoded key header = Inr (Some [])))"
  then obtain encoded where go: "overwrite \<or> \<not> path_exists (root w) output_file"
    and rd: "read_bytes (root w) input_file = Inr encoded"
    and dec: "decrypt_content encoded key header = Inr None \<or>
              decrypt_content encoded key header = Inr (Some [])"
    by blast
  from decrypt_file_not_decoded [OF go rd dec, of env] assms show "r = Inr False" by simp
next
  assume a: "\<not> overwrite \<and> path_exists (root w) output_file \<and>
      raised env (emit (PathExists output_file) w) (Print (skip_message input_file output_file)) = None"
  then have "decrypt_file env w input_file output_file key header False =
      (emit (Print (skip_message input_file output_file)) (emit (PathExists output_file) w), Inr False)"
    by (intro decrypt_file_skip_printed) simp_all
  with a assms show "r = Inr False" by simp
qed

text \<open>C10 at an input with a wrong header and at an input that decodes.\<close>

theorem failure_atomicity_witness:
  "read_bytes (root \<lparr>root = Dir [(''a.php'', File [0x41, 0x42, 0x10, 0x20]), (''x.php'', File [0x00, 0x01])],
                     trace = []\<rparr>) [''x.php''] = Inr [0x00, 0x01] \<and>
   decrypt_content [0x00, 0x01] [0x01, 0x02] [0x41, 0x42] = Inr None \<and>
   decrypt_file plain_console
       \<lparr>root = Dir [(''a.php'', File [0x41, 0x42, 0x10, 0x20]), (''x.php'', File [0x00, 0x01])],
                 trace = []\<rparr> [''x.php''] [''o'', ''x.php''] [0x01, 0x02] [0x41, 0x42] True
     = (\<lparr>root = Dir [(''a.php'', File [0x41, 0x42, 0x10, 0x20]), (''x.php'', File [0x00, 0x01])],
         trace = [ReadBytes [''x.php'']]\<rparr>, Inr False) \<and>
   lookup (Dir [(''a.php'', File [0x41, 0x42, 0x10, 0x20]), (''x.php'', File [0x00, 0x01])]) [''o'', ''x.php'']
     = None \<and>
   decrypt_file plain_console
       \<lparr>root = Dir [(''a.php'', File [0x41, 0x42, 0x10, 0x20]), (''x.php'', File [0x00, 0x01])],
                 trace = []\<rparr> [''a.php''] [''o'', ''a.php''] [0x01, 0x02] [0x41, 0x42] True
     = (\<lparr>root = Dir [(''a.php'', File [0x41, 0x42, 0x10, 0x20]), (''x.php'', File [0x00, 0x01]),
                     (''o'', Dir [(''a.php'', File [0x10, 0xDE])])],
         trace = [ReadBytes [''a.php''], Mkdir [''o''], WriteBytes [''o'', ''a.php''] [0x10, 0xDE]]\<rparr>,
        Inr True) \<and>
   (\<exists>encoded out. read_bytes (root \<lparr>root = Dir [(''a.php'', File [0x41, 0x42, 0x10, 0x20]),
                                                  (''x.php'', File [0x00, 0x01])],
                     trace = []\<rparr>) [''a.php''] = Inr encoded \<and>
      decrypt_content encoded [0x01, 0x02] [0x41, 0x42] = Inr (Some out) \<and> out \<noteq> [])"
proof -
  define fs where "fs = Dir [(''a.php'', File [0x41, 0x42, 0x10, 0x20]), (''x.php'', File [0x00, 0x01])]"
  define w where "w = \<lparr>root = fs, trace = []\<rparr>"
  have r: "read_bytes (root w) [''x.php''] = Inr [0x00, 0x01]"
    unfolding w_def fs_def by (simp add: read_bytes_def)
  have n: "decrypt_content [0x00, 0x01] [0x01, 0x02] [0x41, 0x42] = Inr None"
    by (simp add: decrypt_content_def)
  have d1: "decrypt_file plain_console w [''x.php''] [''o'', ''x.php''] [0x01, 0x02] [0x41, 0x42] True
     = (\<lparr>root = fs, trace = [ReadBytes [''x.php'']]\<rparr>, Inr False)"
    unfolding w_def fs_def by code_simp
  have d2: "decrypt_file plain_console w [''a.php''] [''o'', ''a.php''] [0x01, 0x02] [0x41, 0x42] True
     = (\<lparr>root = Dir [(''a.php'', File [0x41, 0x42, 0x10, 0x20]), (''x.php'', File [0x00, 0x01]),
                     (''o'', Dir [(''a.php'', File [0x10, 0xDE])])],
         trace = [ReadBytes [''a.php''], Mkdir [''o''], WriteBytes [''o'', ''a.php''] [0x10, 0xDE]]\<rparr>,
        Inr True)"
    unfolding w_def fs_def by code_simp
  have ch: "root \<lparr>root = Dir [(''a.php'', File [0x41, 0x42, 0x10, 0x20]), (''x.php'', File [0x00, 0x01]),
                     (''o'', Dir [(''a.php'', File [0x10, 0xDE])])],
         trace = [ReadBytes [''a.php''], Mkdir [''o''], WriteBytes [''o'', ''a.php''] [0x10, 0xDE]]\<rparr>
       \<noteq> root w"
    unfolding w_def fs_def by simp
  from failure_atomicity [OF d1] r n
  have "lookup (root \<lparr>root = fs, trace = [ReadBytes [''x.php'']]\<rparr>) [''o'', ''x.php'']
      = lookup (root w) [''o'', ''x.php'']"
    by blast
  then have l: "lookup fs [''o'', ''x.php''] = None"
    unfolding w_def fs_def by simp
  from failure_atomicity [OF d2] ch
  have "\<exists>encoded out. read_bytes (root w) [''a.php''] = Inr encoded \<and>
      decrypt_content encoded [0x01, 0x02] [0x41, 0x42] = Inr (Some out) \<and> out \<noteq> []"
    by blast
  with r n d1 d2 l show ?thesis unfolding w_def fs_def by blast
qed

section \<open>Properties of the path arithmetic and the walk\<close>

lemma rfind_range: "rfind c s < int (length s)"
  by (induction s) (simp_all add: Let_def)

lemma rfind_lower: "- 1 \<le> rfind c s"
  by (induction s) (simp_all add: Let_def)

lemma rfind_hit: "0 \<le> rfind c s \<Longrightarrow> s ! nat (rfind c s) = c"
proof (induction s)
  case Nil
  then show ?case by simp
next
  case (Cons x xs)
  show ?case
  proof (cases "0 \<le> rfind c xs")
    case True
    with Cons.IH show ?thesis by (simp add: Let_def nat_add_distrib)
  next
    case False
    with Cons.prems show ?thesis by (simp add: Let_def split: if_splits)
  qed
qed

lemma path_suffix_cases:
  "path_suffix p = [] \<or>
   (\<exists>i. 0 < i \<and> i < length (path_name p) \<and> path_suffix p = drop i (path_name p) \<and>
        path_name p ! i = CHR ''.'')"
proof (cases "0 < rfind (CHR ''.'') (path_name p) \<and>
    rfind (CHR ''.'') (path_name p) < int (length (path_name p)) - 1")
  case False
  then show ?thesis by (auto simp add: path_suffix_def Let_def)
next
  case True
  define i where "i = nat (rfind (CHR ''.'') (path_name p))"
  from True have "0 < i" and "i < length (path_name p)" unfolding i_def by linarith+
  moreover from True have "path_suffix p = drop i (path_name p)"
    by (simp add: path_suffix_def Let_def i_def)
  moreover from True have "path_name p ! i = CHR ''.''"
    unfolding i_def by (intro rfind_hit) simp
  ultimately show ?thesis by blast
qed

lemma path_suffix_chars: "set (path_suffix p) \<subseteq> set (path_name p)"
  using path_suffix_cases [of p] by (auto dest: in_set_dropD)

lemma replace_suffix:
  "(if path_suffix p = [] then path_name p @ s
    else take (length (path_name p) - length (path_suffix p)) (path_name p) @ path_suffix p @ s)
   = path_name p @ s"
proof -
  consider "path_suffix p = []"
    | i where "i < length (path_name p)" "path_suffix p = drop i (path_name p)"
    using path_suffix_cases [of p] by blast
  then show ?thesis
  proof cases
    case 1
    then show ?thesis by simp
  next
    case 2
    then have "length (path_name p) - length (path_suffix p) = i" by simp
    with 2 show ?thesis by simp
  qed
qed

lemma suffix_starts_with_dot: "take 1 (path_suffix p @ ''.decoded'') = ''.''"
proof -
  consider "path_suffix p = []"
    | i where "i < length (path_name p)" "path_suffix p = drop i (path_name p)"
      "path_name p ! i = CHR ''.''"
    using path_suffix_cases [of p] by blast
  then show ?thesis
  proof cases
    case 1
    then show ?thesis by simp
  next
    case 2
    then have "path_suffix p = CHR ''.'' # drop (Suc i) (path_name p)"
      by (simp add: Cons_nth_drop_Suc [symmetric])
    then show ?thesis by simp
  qed
qed

lemma with_suffix_decoded:
  "with_suffix p (path_suffix p @ ''.decoded'') =
     (if CHR ''/'' \<in> set (path_suffix p) \<or> path_name p = [] then Inl ValueError
      else Inr (butlast p @ [path_name p @ ''.decoded'']))"
proof -
  have ne: "path_suffix p @ ''.decoded'' \<noteq> ''.''" by simp
  have sl: "(CHR ''/'' \<in> set (path_suffix p @ ''.decoded'')) = (CHR ''/'' \<in> set (path_suffix p))"
    by simp
  have "(path_suffix p @ ''.decoded'') \<noteq> []" by simp
  show ?thesis
    unfolding with_suffix_def sl Let_def
    using replace_suffix [of p "''.decoded''"] suffix_starts_with_dot [of p] ne
    by (auto simp del: append_assoc simp add: append_assoc [symmetric])
qed

lemma os_walk_below:
  "(root_path, dirs, files) \<in> set (os_walk dir n) \<Longrightarrow> \<exists>sub. root_path = dir @ sub"
proof (induction dir n arbitrary: root_path dirs files rule: os_walk.induct)
  case (1 dir b)
  then show ?case by simp
next
  case (2 dir es)
  from "2.prems" consider "root_path = dir"
    | name child where "(name, child) \<in> set es" "(root_path, dirs, files) \<in> set (os_walk (dir @ [name]) child)"
    by auto
  then show ?case
  proof cases
    case 1
    then show ?thesis by simp
  next
    case 2
    from "2.IH" [OF 2(1) refl 2(2)] obtain sub where "root_path = (dir @ [name]) @ sub" by blast
    then show ?thesis by simp
  qed
qed

lemma walk_below:
  "(root_path, dirs, files) \<in> set (walk fs dir) \<Longrightarrow> \<exists>sub. root_path = dir @ sub"
  by (auto simp add: walk_def split: option.splits dest: os_walk_below)

lemma path_name_snoc: "path_name (p @ [name]) = name"
  by (simp add: path_name_def)

lemma file_task_eq:
  "file_task input_dir output_dir (input_dir @ sub) file =
     (if output_dir \<noteq> input_dir then Inr (input_dir @ sub @ [file], output_dir @ sub @ [file])
      else if CHR ''/'' \<in> set (path_suffix [file]) \<or> file = [] then Inl ValueError
      else Inr (input_dir @ sub @ [file], input_dir @ sub @ [file @ ''.decoded'']))"
proof -
  have s: "path_suffix ((input_dir @ sub) @ [file]) = path_suffix [file]"
    by (simp add: path_suffix_def path_name_def)
  have w: "with_suffix ((input_dir @ sub) @ [file]) (path_suffix [file] @ ''.decoded'') =
     (if CHR ''/'' \<in> set (path_suffix [file]) \<or> file = [] then Inl ValueError
      else Inr ((input_dir @ sub) @ [file @ ''.decoded'']))"
    using with_suffix_decoded [of "(input_dir @ sub) @ [file]"]
    unfolding s path_name_snoc butlast_snoc .
  show ?thesis
    unfolding file_task_def Let_def s w
    by (simp add: relative_to_def)
qed

lemma valid_name_suffix: "valid_name file \<Longrightarrow> \<not> (CHR ''/'' \<in> set (path_suffix [file]) \<or> file = [])"
  using path_suffix_chars [of "[file]"] by (auto simp add: valid_name_def path_name_def)

text \<open>The task of a file, where it has one.\<close>

lemma file_task_Inr:
  assumes "file_task input_dir output_dir (input_dir @ sub) file = Inr (input_file, output_file)"
  shows "input_file = input_dir @ sub @ [file]"
    and "output_dir \<noteq> input_dir \<Longrightarrow> output_file = output_dir @ sub @ [file]"
    and "output_dir = input_dir \<Longrightarrow> output_file = input_dir @ sub @ [file @ ''.decoded'']"
  using assms by (auto simp add: file_task_eq split: if_splits)

lemma file_task_total:
  assumes "output_dir \<noteq> input_dir \<or> valid_name file"
  shows "\<exists>task. file_task input_dir output_dir (input_dir @ sub) file = Inr task"
  using assms valid_name_suffix [of "file"] by (auto simp add: file_task_eq)

lemma collect_files_Inr:
  assumes "collect_files input_dir output_dir extension root_path files acc = Inr res"
  shows "\<exists>new. res = acc @ new \<and>
     map fst new = map (\<lambda>file. root_path @ [file]) (filter (\<lambda>file. endswith file extension) files) \<and>
     (\<forall>task \<in> set new. \<exists>file \<in> set files. endswith file extension \<and>
         file_task input_dir output_dir root_path file = Inr task)"
  using assms
proof (induction files arbitrary: acc)
  case Nil
  then show ?case by simp
next
  case (Cons name files)
  show ?case
  proof (cases "endswith name extension")
    case False
    with Cons.prems have "collect_files input_dir output_dir extension root_path files acc = Inr res"
      by simp
    from Cons.IH [OF this] False show ?thesis by auto
  next
    case True
    with Cons.prems obtain task where t: "file_task input_dir output_dir root_path name = Inr task"
      and rest: "collect_files input_dir output_dir extension root_path files (acc @ [task]) = Inr res"
      by (auto split: sum.splits)
    from Cons.IH [OF rest] obtain new where new: "res = (acc @ [task]) @ new"
      "map fst new = map (\<lambda>file. root_path @ [file]) (filter (\<lambda>file. endswith file extension) files)"
      "\<forall>task \<in> set new. \<exists>file \<in> set files. endswith file extension \<and>
         file_task input_dir output_dir root_path file = Inr task"
      by blast
    from t have f: "fst task = root_path @ [name]"
      by (auto simp add: file_task_def Let_def split: sum.splits if_splits)
    have "res = acc @ (task # new)" using new(1) by simp
    moreover have "map fst (task # new) =
        map (\<lambda>file. root_path @ [file]) (filter (\<lambda>file. endswith file extension) (name # files))"
      using True f new(2) by simp
    moreover have "\<forall>task' \<in> set (task # new). \<exists>file' \<in> set (name # files). endswith file' extension \<and>
         file_task input_dir output_dir root_path file' = Inr task'"
      using True t new(3) by auto
    ultimately show ?thesis by blast
  qed
qed

lemma collect_files_total:
  assumes "\<forall>file \<in> set files. \<exists>task. file_task input_dir output_dir root_path file = Inr task"
  shows "\<exists>res. collect_files input_dir output_dir extension root_path files acc = Inr res"
  using assms by (induction files arbitrary: acc) (auto split: sum.splits)

section \<open>Properties of the batch walker\<close>

lemma collect_walk_Inr:
  assumes "collect_walk input_dir output_dir extension listing acc = Inr res"
  shows "\<exists>new. res = acc @ new \<and>
     map fst new = matching_files extension listing \<and>
     (\<forall>task \<in> set new. \<exists>root_path dirs files name. (root_path, dirs, files) \<in> set listing \<and>
         name \<in> set files \<and> endswith name extension \<and>
         file_task input_dir output_dir root_path name = Inr task)"
  using assms
proof (induction listing arbitrary: acc)
  case Nil
  then show ?case by (simp add: matching_files_def)
next
  case (Cons entry listing)
  obtain root_path dirs files where entry: "entry = (root_path, dirs, files)"
    by (cases entry) auto
  from Cons.prems entry obtain mid
    where here: "collect_files input_dir output_dir extension root_path files acc = Inr mid"
      and rest: "collect_walk input_dir output_dir extension listing mid = Inr res"
    by (auto split: sum.splits)
  from collect_files_Inr [OF here] obtain new1 where new1: "mid = acc @ new1"
    "map fst new1 = map (\<lambda>file. root_path @ [file]) (filter (\<lambda>file. endswith file extension) files)"
    "\<forall>task \<in> set new1. \<exists>name \<in> set files. endswith name extension \<and>
         file_task input_dir output_dir root_path name = Inr task"
    by blast
  from Cons.IH [OF rest] obtain new2 where new2: "res = mid @ new2"
    "map fst new2 = matching_files extension listing"
    "\<forall>task \<in> set new2. \<exists>root_path dirs files name. (root_path, dirs, files) \<in> set listing \<and>
         name \<in> set files \<and> endswith name extension \<and>
         file_task input_dir output_dir root_path name = Inr task"
    by blast
  have "res = acc @ (new1 @ new2)" using new1(1) new2(1) by simp
  moreover have "map fst (new1 @ new2) = matching_files extension (entry # listing)"
    using new1(2) new2(2) by (simp add: matching_files_def entry)
  moreover have "\<forall>task \<in> set (new1 @ new2). \<exists>root_path dirs files name.
         (root_path, dirs, files) \<in> set (entry # listing) \<and>
         name \<in> set files \<and> endswith name extension \<and>
         file_task input_dir output_dir root_path name = Inr task"
  proof
    fix task assume "task \<in> set (new1 @ new2)"
    then consider "task \<in> set new1" | "task \<in> set new2" by auto
    then show "\<exists>root_path dirs files name.
         (root_path, dirs, files) \<in> set (entry # listing) \<and>
         name \<in> set files \<and> endswith name extension \<and>
         file_task input_dir output_dir root_path name = Inr task"
    proof cases
      case 1
      with new1(3) obtain name where "name \<in> set files" "endswith name extension"
        "file_task input_dir output_dir root_path name = Inr task" by blast
      then show ?thesis unfolding entry by (intro exI [of _ root_path] exI [of _ dirs] exI [of _ files] exI [of _ name]) simp
    next
      case 2
      with new2(3) obtain r d f name where "(r, d, f) \<in> set listing" "name \<in> set f"
        "endswith name extension" "file_task input_dir output_dir r name = Inr task" by blast
      then show ?thesis by (intro exI [of _ r] exI [of _ d] exI [of _ f] exI [of _ name]) simp
    qed
  qed
  ultimately show ?case by blast
qed

lemma collect_walk_total:
  assumes "\<forall>(root_path, dirs, files) \<in> set listing. \<forall>name \<in> set files.
      \<exists>task. file_task input_dir output_dir root_path name = Inr task"
  shows "\<exists>res. collect_walk input_dir output_dir extension listing acc = Inr res"
  using assms
proof (induction listing arbitrary: acc)
  case Nil
  then show ?case by simp
next
  case (Cons entry listing)
  obtain root_path dirs files where entry: "entry = (root_path, dirs, files)"
    by (cases entry) auto
  from Cons.prems entry
  have "\<forall>name \<in> set files. \<exists>task. file_task input_dir output_dir root_path name = Inr task"
    by auto
  from collect_files_total [OF this] obtain mid
    where here: "collect_files input_dir output_dir extension root_path files acc = Inr mid"
    by blast
  from Cons.prems have "\<forall>(root_path, dirs, files) \<in> set listing. \<forall>name \<in> set files.
      \<exists>task. file_task input_dir output_dir root_path name = Inr task"
    by simp
  from Cons.IH [OF this] obtain res
    where "collect_walk input_dir output_dir extension listing mid = Inr res" by blast
  with here entry show ?case by simp
qed

lemma collect_walk_walk_total:
  assumes "output_dir \<noteq> input_dir \<or>
     (\<forall>(root_path, dirs, files) \<in> set (walk fs input_dir). \<forall>name \<in> set files. valid_name name)"
  shows "\<exists>res. collect_walk input_dir output_dir extension (walk fs input_dir) acc = Inr res"
proof (rule collect_walk_total, clarify)
  fix root_path dirs files name
  assume e: "(root_path, dirs, files) \<in> set (walk fs input_dir)" and n: "name \<in> set files"
  from walk_below [OF e] obtain sub where sub: "root_path = input_dir @ sub" by blast
  from assms e n have "output_dir \<noteq> input_dir \<or> valid_name name" by auto
  from file_task_total [OF this, of sub]
  show "\<exists>task. file_task input_dir output_dir root_path name = Inr task"
    unfolding sub .
qed

text \<open>
  Claim C7 (output paths). The collected tasks are, in order, the files of the walk
  whose names end with the extension. Each input path is \<open>input_dir\<close> followed by a
  relative path \<open>rel\<close>. If \<open>output_dir\<close> differs from \<open>input_dir\<close> the output path is
  \<open>output_dir\<close> followed by the same \<open>rel\<close>; if they are equal it is the input path with
  \<^verbatim>\<open>.decoded\<close> appended to its last component, which is not the input path.
\<close>

theorem output_path_computation:
  assumes "collect_walk input_dir output_dir extension (walk fs input_dir) [] = Inr files_to_process"
  shows "map fst files_to_process = matching_files extension (walk fs input_dir) \<and>
    (\<forall>(input_file, output_file) \<in> set files_to_process.
       \<exists>rel. rel \<noteq> [] \<and> endswith (last rel) extension \<and> input_file = input_dir @ rel \<and>
         (output_dir \<noteq> input_dir \<longrightarrow> output_file = output_dir @ rel) \<and>
         (output_dir = input_dir \<longrightarrow>
            output_file = butlast input_file @ [last input_file @ ''.decoded''] \<and>
            output_file \<noteq> input_file))"
proof -
  from collect_walk_Inr [OF assms] have m: "map fst files_to_process = matching_files extension (walk fs input_dir)"
    and each: "\<forall>task \<in> set files_to_process. \<exists>root_path dirs files name.
         (root_path, dirs, files) \<in> set (walk fs input_dir) \<and>
         name \<in> set files \<and> endswith name extension \<and>
         file_task input_dir output_dir root_path name = Inr task"
    by auto
  have "\<exists>rel. rel \<noteq> [] \<and> endswith (last rel) extension \<and> input_file = input_dir @ rel \<and>
         (output_dir \<noteq> input_dir \<longrightarrow> output_file = output_dir @ rel) \<and>
         (output_dir = input_dir \<longrightarrow>
            output_file = butlast input_file @ [last input_file @ ''.decoded''] \<and>
            output_file \<noteq> input_file)"
    if "(input_file, output_file) \<in> set files_to_process" for input_file output_file
  proof -
    from each that obtain root_path dirs files name
      where e: "(root_path, dirs, files) \<in> set (walk fs input_dir)"
        and ext: "endswith name extension"
        and t: "file_task input_dir output_dir root_path name = Inr (input_file, output_file)"
      by blast
    from walk_below [OF e] obtain sub where sub: "root_path = input_dir @ sub" by blast
    note ft = file_task_Inr [OF t [unfolded sub]]
    have i: "input_file = input_dir @ (sub @ [name])" using ft(1) by simp
    have mirror: "output_file = output_dir @ (sub @ [name])" if "output_dir \<noteq> input_dir"
      using ft(2) [OF that] by simp
    have inplace: "output_file = butlast input_file @ [last input_file @ ''.decoded''] \<and>
        output_file \<noteq> input_file" if "output_dir = input_dir"
    proof -
      have b: "butlast input_file = input_dir @ sub" and l: "last input_file = name"
        unfolding i by (simp_all add: butlast_append)
      from ft(3) [OF that] have o: "output_file = (input_dir @ sub) @ [name @ ''.decoded'']" by simp
      have "(input_dir @ sub) @ [name @ ''.decoded''] \<noteq> (input_dir @ sub) @ [name]" by simp
      with o i b l show ?thesis by simp
    qed
    show ?thesis
      by (rule exI [of _ "sub @ [name]"]) (use i ext mirror inplace in simp)
  qed
  with m show ?thesis by blast
qed

text \<open>C7 at a directory with a file and a file in a subdirectory, in both modes.\<close>

theorem output_path_computation_witness:
  "collect_walk [''in''] [''out''] ''.php''
      (walk (Dir [(''in'', Dir [(''a.php'', File [0x41]), (''s'', Dir [(''c.php'', File [0x00])])])]) [''in'']) []
     = Inr [([''in'', ''a.php''], [''out'', ''a.php'']),
            ([''in'', ''s'', ''c.php''], [''out'', ''s'', ''c.php''])] \<and>
   (\<exists>rel. [''in'', ''s'', ''c.php''] = [''in''] @ rel \<and> [''out'', ''s'', ''c.php''] = [''out''] @ rel) \<and>
   collect_walk [''in''] [''in''] ''.php''
      (walk (Dir [(''in'', Dir [(''a.php'', File [0x41]), (''s'', Dir [(''c.php'', File [0x00])])])]) [''in'']) []
     = Inr [([''in'', ''a.php''], [''in'', ''a.php.decoded'']),
            ([''in'', ''s'', ''c.php''], [''in'', ''s'', ''c.php.decoded''])] \<and>
   [''in'', ''s'', ''c.php.decoded'']
     = butlast [''in'', ''s'', ''c.php''] @ [last [''in'', ''s'', ''c.php''] @ ''.decoded'']"
proof -
  define fs where "fs = Dir [(''in'', Dir [(''a.php'', File [0x41]), (''s'', Dir [(''c.php'', File [0x00])])])]"
  have mirror: "collect_walk [''in''] [''out''] ''.php'' (walk fs [''in'']) []
     = Inr [([''in'', ''a.php''], [''out'', ''a.php'']),
            ([''in'', ''s'', ''c.php''], [''out'', ''s'', ''c.php''])]"
    unfolding fs_def by code_simp
  have inplace: "collect_walk [''in''] [''in''] ''.php'' (walk fs [''in'']) []
     = Inr [([''in'', ''a.php''], [''in'', ''a.php.decoded'']),
            ([''in'', ''s'', ''c.php''], [''in'', ''s'', ''c.php.decoded''])]"
    unfolding fs_def by code_simp
  have ne: "[''out''] \<noteq> [''in'']" by simp
  from output_path_computation [OF mirror] ne
  have "\<exists>rel. [''in'', ''s'', ''c.php''] = [''in''] @ rel \<and> [''out'', ''s'', ''c.php''] = [''out''] @ rel"
    by fastforce
  moreover from output_path_computation [OF inplace]
  have "[''in'', ''s'', ''c.php.decoded'']
     = butlast [''in'', ''s'', ''c.php''] @ [last [''in'', ''s'', ''c.php''] @ ''.decoded'']"
    by fastforce
  ultimately show ?thesis using mirror inplace unfolding fs_def by blast
qed

text \<open>
  Where no call to the console or the progress bar raises, the decoder's result and the
  file system it leaves depend on the file system alone.
\<close>

lemma decrypt_file_quiet:
  assumes "never_raises env"
  shows "\<exists>ok. snd (decrypt_file env w input_file output_file key header overwrite) = Inr ok"
  using assms
  by (auto simp add: decrypt_file_def decrypt_file_guarded_def decrypt_file_except_def Let_def
      never_raises_def raised_def split: sum.splits option.splits)

lemma decrypt_file_root:
  assumes "never_raises env" and "root w = root v"
  shows "snd (decrypt_file env w input_file output_file key header overwrite) =
         snd (decrypt_file env v input_file output_file key header overwrite) \<and>
         root (fst (decrypt_file env w input_file output_file key header overwrite)) =
         root (fst (decrypt_file env v input_file output_file key header overwrite))"
  using assms
  by (auto simp add: decrypt_file_def decrypt_file_guarded_def decrypt_file_except_def Let_def
      never_raises_def raised_def root_emit split: sum.splits option.splits)

lemma outcomes_root:
  assumes "never_raises env"
  shows "root w = root v \<Longrightarrow>
    outcomes env w key header overwrite tasks = outcomes env v key header overwrite tasks"
proof (induction tasks arbitrary: w v)
  case Nil
  then show ?case by simp
next
  case (Cons task tasks)
  obtain input_file output_file where task: "task = (input_file, output_file)"
    by (cases task) auto
  obtain w' r where dw: "decrypt_file env w input_file output_file key header overwrite = (w', r)"
    by (cases "decrypt_file env w input_file output_file key header overwrite") auto
  obtain v' r' where dv: "decrypt_file env v input_file output_file key header overwrite = (v', r')"
    by (cases "decrypt_file env v input_file output_file key header overwrite") auto
  from decrypt_file_root [OF assms Cons.prems, of input_file output_file key header overwrite] dw dv
  have "r = r'" and "root w' = root v'" by simp_all
  with Cons.IH [of w' v'] dw dv task show ?case by simp
qed

lemma length_outcomes: "length (outcomes env w key header overwrite tasks) = length tasks"
  by (induction tasks arbitrary: w) (auto simp add: Let_def split: prod.splits)

lemma process_files_count:
  assumes q: "never_raises env"
  shows "process_files env w key header overwrite idx tasks success_count = (w', r) \<Longrightarrow>
    r = Inr (success_count +
             length (filter (\<lambda>x. x = Inr True) (outcomes env w key header overwrite tasks)))"
proof (induction tasks arbitrary: w idx success_count)
  case Nil
  then show ?case by simp
next
  case (Cons task tasks)
  obtain input_file output_file where task: "task = (input_file, output_file)"
    by (cases task) auto
  define w1 where "w1 = emit (ProgressDescription (file_description input_file)) w"
  from decrypt_file_quiet [OF q, of w1 input_file output_file key header overwrite]
  obtain w2 ok where d1: "decrypt_file env w1 input_file output_file key header overwrite = (w2, Inr ok)"
    by (cases "decrypt_file env w1 input_file output_file key header overwrite") auto
  obtain v r0 where d0: "decrypt_file env w input_file output_file key header overwrite = (v, r0)"
    by (cases "decrypt_file env w input_file output_file key header overwrite") auto
  have "root w1 = root w" by (simp add: w1_def root_emit)
  from decrypt_file_root [OF q this, of input_file output_file key header overwrite] d1 d0
  have same: "r0 = Inr ok" "root w2 = root v" by simp_all
  define w3 where "w3 = emit (ProgressCompleted (idx + 1)) w2"
  have r3: "root w3 = root v" using same(2) by (simp add: w3_def root_emit)
  have quiet: "raised env u e = None" for u e
    using q by (simp add: never_raises_def raised_def)
  from Cons.prems task d1
  have "process_files env w3 key header overwrite (idx + 1) tasks
          (if ok then success_count + 1 else success_count) = (w', r)"
    by (simp add: w1_def w3_def Let_def quiet)
  from Cons.IH [OF this]
  have "r = Inr ((if ok then success_count + 1 else success_count)
            + length (filter (\<lambda>x. x = Inr True) (outcomes env w3 key header overwrite tasks)))" .
  also have "outcomes env w3 key header overwrite tasks = outcomes env v key header overwrite tasks"
    using q r3 by (rule outcomes_root)
  finally show ?case using task d0 same(1) by simp
qed

text \<open>
  What the batch walker does where no call to the console or the progress bar raises:
  with the output directory other than the input directory, or every listed name valid,
  the collection succeeds, its tasks are the \<open>N\<close> matching files of the walk, and the
  result is \<open>(K, N)\<close> with \<open>K\<close> the number of tasks for which the decoder, run on them
  one after the other, returned \<open>True\<close>; with no matching file it is \<open>(0, 0)\<close> after
  the notice alone.
\<close>

lemma batch_accounting_when_quiet:
  assumes q: "never_raises env"
    and "output_dir \<noteq> input_dir \<or>
     (\<forall>(root_path, dirs, files) \<in> set (walk (root w) input_dir). \<forall>name \<in> set files. valid_name name)"
  shows "\<exists>files_to_process w'.
     collect_walk input_dir output_dir extension (walk (root w) input_dir) [] = Inr files_to_process \<and>
     map fst files_to_process = matching_files extension (walk (root w) input_dir) \<and>
     process_directory env w input_dir output_dir key header extension overwrite =
       (w', Inr (length (filter (\<lambda>x. x = Inr True)
                           (outcomes env w key header overwrite files_to_process)),
                 length (matching_files extension (walk (root w) input_dir)))) \<and>
     (matching_files extension (walk (root w) input_dir) = [] \<longrightarrow>
        process_directory env w input_dir output_dir key header extension overwrite =
          (emit (Print (no_files_message extension)) w, Inr (0, 0)))"
proof -
  let ?listing = "walk (root w) input_dir"
  have quiet: "raised env u e = None" for u e
    using q by (simp add: never_raises_def raised_def)
  from collect_walk_walk_total [OF assms(2)] obtain tasks
    where c: "collect_walk input_dir output_dir extension ?listing [] = Inr tasks" by blast
  from collect_walk_Inr [OF c] have m: "map fst tasks = matching_files extension ?listing"
    by auto
  then have len: "length (matching_files extension ?listing) = length tasks"
    by (metis length_map)
  let ?K = "length (filter (\<lambda>x. x = Inr True) (outcomes env w key header overwrite tasks))"
  show ?thesis
  proof (cases "tasks = []")
    case True
    then have "process_directory env w input_dir output_dir key header extension overwrite =
        (emit (Print (no_files_message extension)) w, Inr (0, 0))"
      using c by (simp add: process_directory_def quiet)
    with True c m len show ?thesis
      by (intro exI [of _ tasks] exI [of _ "emit (Print (no_files_message extension)) w"]) simp
  next
    case False
    define w1 where "w1 = emit (ProgressAddTask task_description (length tasks)) (emit ProgressStart w)"
    obtain w2 r where p: "process_files env w1 key header overwrite 0 tasks 0 = (w2, r)"
      by (cases "process_files env w1 key header overwrite 0 tasks 0") auto
    have "root w1 = root w" by (simp add: w1_def root_emit)
    with q have "outcomes env w1 key header overwrite tasks = outcomes env w key header overwrite tasks"
      by (rule outcomes_root)
    with process_files_count [OF q p] have r: "r = Inr ?K" by simp
    have "process_directory env w input_dir output_dir key header extension overwrite =
        (emit ProgressStop w2, Inr (?K, length tasks))"
      using c False p r
      by (simp add: process_directory_def progress_body_def Let_def w1_def quiet)
    with False c m len show ?thesis
      by (intro exI [of _ tasks] exI [of _ "emit ProgressStop w2"]) auto
  qed
qed

text \<open>The loop over the tasks: an exception that leaves the decoder leaves the loop.\<close>

lemma process_files_first_raises:
  assumes "\<And>v. root v = root w \<Longrightarrow>
      snd (decrypt_file env v input_file output_file key header overwrite) = Inl x"
  shows "\<exists>e. snd (process_files env w key header overwrite idx ((input_file, output_file) # rest) n)
      = Inl e"
proof (cases "raised env w (ProgressDescription (file_description input_file))")
  case (Some e)
  then show ?thesis by simp
next
  case None
  let ?w1 = "emit (ProgressDescription (file_description input_file)) w"
  have "snd (decrypt_file env ?w1 input_file output_file key header overwrite) = Inl x"
    by (rule assms) (simp add: root_emit)
  then obtain w2 where "decrypt_file env ?w1 input_file output_file key header overwrite = (w2, Inl x)"
    by (cases "decrypt_file env ?w1 input_file output_file key header overwrite") auto
  with None show ?thesis by (simp add: Let_def)
qed

lemma process_directory_body_raises:
  assumes c: "collect_walk input_dir output_dir extension (walk (root w) input_dir) []
      = Inr (task # rest)"
    and b: "\<And>v. root v = root w \<Longrightarrow>
      \<exists>e. snd (process_files env v key header overwrite 0 (task # rest) 0) = Inl e"
  shows "\<exists>e. snd (process_directory env w input_dir output_dir key header extension overwrite) = Inl e"
proof (cases "raised env w ProgressStart")
  case (Some e)
  with c show ?thesis by (simp add: process_directory_def)
next
  case None
  let ?w1 = "emit ProgressStart w"
  obtain w2 body where p: "progress_body env ?w1 key header overwrite (task # rest) = (w2, body)"
    by (cases "progress_body env ?w1 key header overwrite (task # rest)") auto
  have "\<exists>e. body = Inl e"
  proof (cases "raised env ?w1 (ProgressAddTask task_description (length (task # rest)))")
    case (Some e)
    with p show ?thesis by (auto simp add: progress_body_def Let_def)
  next
    case n: None
    let ?w2 = "emit (ProgressAddTask task_description (length (task # rest))) ?w1"
    have "root ?w2 = root w" by (simp add: root_emit)
    from b [OF this] obtain e where "snd (process_files env ?w2 key header overwrite 0 (task # rest) 0) = Inl e"
      by blast
    with p n show ?thesis by (auto simp add: progress_body_def Let_def)
  qed
  then obtain e where body: "body = Inl e" by blast
  show ?thesis
  proof (cases "raised env w2 ProgressStop")
    case (Some e')
    with c None p show ?thesis by (simp add: process_directory_def Let_def)
  next
    case n: None
    with c None p body show ?thesis by (simp add: process_directory_def Let_def)
  qed
qed

text \<open>
  Claim C6 (batch accounting) against the code. The claim has \<open>process_directory\<close>
  return the pair \<open>(K, N)\<close> for every directory, and \<open>(0, 0)\<close> when no file matches. Let
  the console be \<^verbatim>\<open>rich\<close>'s. If the first task is skipped (its output exists and
  \<^verbatim>\<open>overwrite\<close> is false) and its messages hold a closing tag with nothing to close,
  the exception that leaves \<open>decrypt_file\<close> is caught nowhere and \<open>process_directory\<close>
  raises. If no file matches and the notice of line 89, with the extension put into it
  unescaped, holds such a tag, \<open>process_directory\<close> raises \<^verbatim>\<open>MarkupError\<close> instead of
  returning \<open>(0, 0)\<close>.
\<close>

theorem batch_raises_markup_error:
  assumes "rich_console env"
  shows "(collect_walk input_dir output_dir extension (walk (root w) input_dir) []
            = Inr ((input_file, output_file) # rest) \<and>
          path_exists (root w) output_file \<and>
          closes_unopened (skip_message input_file output_file) \<and>
          (\<forall>text. closes_unopened (error_message input_file text)) \<longrightarrow>
          (\<exists>e. snd (process_directory env w input_dir output_dir key header extension False) = Inl e)) \<and>
         (collect_walk input_dir output_dir extension (walk (root w) input_dir) [] = Inr [] \<and>
          closes_unopened (no_files_message extension) \<longrightarrow>
          snd (process_directory env w input_dir output_dir key header extension overwrite)
            = Inl MarkupError)"
proof (intro conjI impI)
  assume a: "collect_walk input_dir output_dir extension (walk (root w) input_dir) []
            = Inr ((input_file, output_file) # rest) \<and>
          path_exists (root w) output_file \<and>
          closes_unopened (skip_message input_file output_file) \<and>
          (\<forall>text. closes_unopened (error_message input_file text))"
  then have c: "collect_walk input_dir output_dir extension (walk (root w) input_dir) []
            = Inr ((input_file, output_file) # rest)"
    and ex: "path_exists (root w) output_file"
    and s: "closes_unopened (skip_message input_file output_file)"
    and h: "\<forall>text. closes_unopened (error_message input_file text)"
    by blast+
  have d: "snd (decrypt_file env v input_file output_file key header False) = Inl MarkupError"
    if "root v = root w" for v
    using assms ex s h unfolding that [symmetric] by (rule decrypt_file_skip_raises)
  have "\<exists>e. snd (process_files env v key header False 0 ((input_file, output_file) # rest) 0) = Inl e"
    if "root v = root w" for v
  proof (rule process_files_first_raises)
    fix u :: world assume "root u = root v"
    with that have "root u = root w" by simp
    then show "snd (decrypt_file env u input_file output_file key header False) = Inl MarkupError"
      by (rule d)
  qed
  with c show "\<exists>e. snd (process_directory env w input_dir output_dir key header extension False) = Inl e"
    by (rule process_directory_body_raises)
next
  assume a: "collect_walk input_dir output_dir extension (walk (root w) input_dir) [] = Inr [] \<and>
          closes_unopened (no_files_message extension)"
  with assms have "raised env w (Print (no_files_message extension)) = Some MarkupError"
    by (simp add: rich_console_def raised_def)
  with a show "snd (process_directory env w input_dir output_dir key header extension overwrite)
            = Inl MarkupError"
    by (simp add: process_directory_def)
qed

text \<open>
  C6 in place at the directory \<^verbatim>\<open>d[\<close> holding \<^verbatim>\<open>x].php\<close> and \<^verbatim>\<open>x].php.decoded\<close>, all
  valid names, and at the extension \<^verbatim>\<open>[/]\<close> with no matching file.
\<close>

theorem batch_raises_markup_error_witness:
  "rich_console plain_console \<and>
   collect_walk [] [] ''.php''
      (walk (root \<lparr>root = Dir [(''d['', Dir [(''x].php'', File [0x41, 0x42, 0x10, 0x20]),
                                          (''x].php.decoded'', File [])])], trace = []\<rparr>) []) []
     = Inr [([''d['', ''x].php''], [''d['', ''x].php.decoded''])] \<and>
   list_all (\<lambda>(root_path, dirs, files). list_all valid_name files)
      (walk (Dir [(''d['', Dir [(''x].php'', File [0x41, 0x42, 0x10, 0x20]),
                               (''x].php.decoded'', File [])])]) []) \<and>
   snd (process_directory plain_console
          \<lparr>root = Dir [(''d['', Dir [(''x].php'', File [0x41, 0x42, 0x10, 0x20]),
                                    (''x].php.decoded'', File [])])], trace = []\<rparr>
          [] [] [0x01, 0x02] [0x41, 0x42] ''.php'' False) = Inl MarkupError \<and>
   collect_walk [] [''out''] ''[/]''
      (walk (root \<lparr>root = Dir [(''a.php'', File [0x41, 0x42, 0x10, 0x20])], trace = []\<rparr>) []) []
     = Inr [] \<and>
   snd (process_directory plain_console
          \<lparr>root = Dir [(''a.php'', File [0x41, 0x42, 0x10, 0x20])], trace = []\<rparr>
          [] [''out''] [0x01, 0x02] [0x41, 0x42] ''[/]'' False) = Inl MarkupError"
proof -
  define u where "u = \<lparr>root = Dir [(''d['', Dir [(''x].php'', File [0x41, 0x42, 0x10, 0x20]),
                                          (''x].php.decoded'', File [])])], trace = []\<rparr>"
  define v where "v = \<lparr>root = Dir [(''a.php'', File [0x41, 0x42, 0x10, 0x20])], trace = []\<rparr>"
  have c: "collect_walk [] [] ''.php'' (walk (root u) []) []
     = Inr (([''d['', ''x].php''], [''d['', ''x].php.decoded'']) # [])"
    unfolding u_def by code_simp
  have valid: "list_all (\<lambda>(root_path, dirs, files). list_all valid_name files) (walk (root u) [])"
    unfolding u_def by code_simp
  have ex: "path_exists (root u) [''d['', ''x].php.decoded'']"
    unfolding u_def by (simp add: path_exists_def)
  have s: "closes_unopened (skip_message [''d['', ''x].php''] [''d['', ''x].php.decoded''])"
    by (simp add: closes_unopened_def skip_message_def tag_first_def)
  have h: "\<forall>text. closes_unopened (error_message [''d['', ''x].php''] text)"
    by (simp add: closes_unopened_def error_message_def tag_first_def)
  have c0: "collect_walk [] [''out''] ''[/]'' (walk (root v) []) [] = Inr []"
    unfolding v_def by code_simp
  have n: "closes_unopened (no_files_message ''[/]'')"
    by (simp add: closes_unopened_def no_files_message_def tag_first_def)
  note t1 = batch_raises_markup_error [OF rich_console_plain,
      of "[]" "[]" "''.php''" u "[''d['', ''x].php'']" "[''d['', ''x].php.decoded'']" "[]"
         "[0x01, 0x02]" "[0x41, 0x42]" False]
  from t1 c ex s h
  have "\<exists>e. snd (process_directory plain_console u [] [] [0x01, 0x02] [0x41, 0x42] ''.php'' False) = Inl e"
    by blast
  moreover have "snd (process_directory plain_console u [] [] [0x01, 0x02] [0x41, 0x42] ''.php'' False)
      = Inl MarkupError"
    unfolding u_def by code_simp
  moreover
  note t2 = batch_raises_markup_error [OF rich_console_plain,
      of "[]" "[''out'']" "''[/]''" v "[]" "[]" "[]" "[0x01, 0x02]" "[0x41, 0x42]" False]
  from t2 c0 n
  have "snd (process_directory plain_console v [] [''out''] [0x01, 0x02] [0x41, 0x42] ''[/]'' False)
      = Inl MarkupError"
    by blast
  ultimately show ?thesis
    using rich_console_plain c valid c0 unfolding u_def v_def by simp
qed

end
